theory Spec2Isabelle
  imports Complex_Main "HOL-Library.Char_ord" "HOL-Library.List_Lexorder"
begin

section \<open>Numbers and strings of the host language\<close>

text \<open>
  JavaScript numbers are modelled as \<^typ>\<open>real\<close>: every arithmetic operation, \<open>Math.sin\<close>,
  \<open>Math.cos\<close>, \<open>Math.sqrt\<close> and \<open>Math.atan2\<close> is taken exact, and there is no NaN, no
  infinity and no signed zero. The one place the source uses \<open>Infinity\<close> (the running
  minimum of \<open>nearestSampleIndex\<close>) is modelled with an option. Results that are exact
  here hold up to rounding in IEEE doubles.
\<close>

text \<open>The \<open>%\<close> operator on numbers: the remainder has the sign of the dividend.\<close>

definition js_trunc :: "real \<Rightarrow> int" where
  "js_trunc r = (if 0 \<le> r then \<lfloor>r\<rfloor> else \<lceil>r\<rceil>)"

definition js_rem :: "real \<Rightarrow> real \<Rightarrow> real" where
  "js_rem x m = x - m * of_int (js_trunc (x / m))"

text \<open>
  \<open>Math.atan2(y, x)\<close> on finite arguments. With no signed zero, \<open>atan2 0 x\<close> for negative
  \<open>x\<close> is \<open>\<pi>\<close> and \<open>atan2 0 0\<close> is \<open>0\<close>.
\<close>

definition atan2 :: "real \<Rightarrow> real \<Rightarrow> real" where
  "atan2 y x =
     (if 0 < x then arctan (y / x)
      else if x < 0 then (if 0 \<le> y then arctan (y / x) + pi else arctan (y / x) - pi)
      else if 0 < y then pi / 2
      else if y < 0 then - (pi / 2)
      else 0)"

text \<open>
  \<open>Number.prototype.toFixed\<close> for arguments below \<open>10^21\<close> in absolute value: a minus sign
  for a negative number (also when the digits round to zero), then the digits of the
  integer nearest to \<open>|x| * 10^f\<close> (the larger one on a tie), with the decimal point
  before the last \<open>f\<close> digits.
\<close>

definition digit_char :: "nat \<Rightarrow> char" where
  "digit_char d = ''0123456789'' ! d"

function digits :: "nat \<Rightarrow> string" where
  "digits n = (if n < 10 then [digit_char n] else digits (n div 10) @ [digit_char (n mod 10)])"
  by pat_completeness auto
termination
  by (relation "measure (\<lambda>n. n)") auto

declare digits.simps [simp del]

definition toFixed :: "real \<Rightarrow> nat \<Rightarrow> string" where
  "toFixed x f =
     (let s = (if x < 0 then ''-'' else '''');
          n = nat \<lfloor>\<bar>x\<bar> * 10 ^ f + 1 / 2\<rfloor>;
          m = digits n;
          m' = (if f \<noteq> 0
                then (let z = (if length m \<le> f then replicate (f + 1 - length m) CHR ''0'' @ m else m);
                          k = length z
                      in take (k - f) z @ ''.'' @ drop (k - f) z)
                else m)
      in s @ m')"

section \<open>GeoMath: bearing, angle difference, distance, small offsets\<close>

type_synonym coord = "real \<times> real"
  \<comment> \<open>a route coordinate \<open>[lng, lat]\<close>: longitude first\<close>

definition toRad :: "real \<Rightarrow> real" where
  "toRad d = d * pi / 180"

definition computeBearing :: "real \<Rightarrow> real \<Rightarrow> real \<Rightarrow> real \<Rightarrow> real" where
  "computeBearing lat1 lng1 lat2 lng2 =
     (let dLng = toRad (lng2 - lng1);
          phi1 = toRad lat1;
          phi2 = toRad lat2;
          y = sin dLng * cos phi2;
          x = cos phi1 * sin phi2 - sin phi1 * cos phi2 * cos dLng
      in js_rem (atan2 y x * (180 / pi) + 360) 360)"

definition smallestAngle :: "real \<Rightarrow> real \<Rightarrow> real" where
  "smallestAngle a b = (let d = js_rem \<bar>a - b\<bar> 360 in if d > 180 then 360 - d else d)"

text \<open>
  \<open>Math.PI\<close> is the double nearest to \<open>\<pi>\<close>, a little below it. \<open>headwindComponent\<close> keeps
  the constant as the program has it, since where its cosine vanishes decides whether a
  crosswind of exactly 90 degrees counts as headwind; the product, the quotient and the
  cosine itself are exact.
\<close>

definition Math_PI :: real where
  "Math_PI = 884279719003555 / 2 ^ 48"

definition headwindComponent :: "real \<Rightarrow> real \<Rightarrow> real \<Rightarrow> real" where
  "headwindComponent bearing windFromDeg windSpeedKmh =
     (let theta = smallestAngle bearing windFromDeg
      in windSpeedKmh * cos ((theta * Math_PI) / 180))"

definition haversineMeters :: "real \<Rightarrow> real \<Rightarrow> real \<Rightarrow> real \<Rightarrow> real" where
  "haversineMeters lat1 lng1 lat2 lng2 =
     (let R = 6371000;
          dLat = toRad (lat2 - lat1);
          dLng = toRad (lng2 - lng1);
          a = (sin (dLat / 2))\<^sup>2 + cos (toRad lat1) * cos (toRad lat2) * (sin (dLng / 2))\<^sup>2
      in R * 2 * atan2 (sqrt a) (sqrt (1 - a)))"

definition CLIMB_K :: real where
  "CLIMB_K = 80"

definition GRADE_CLAMP :: real where
  "GRADE_CLAMP = 0.2"

definition OFFSET_METERS :: real where
  "OFFSET_METERS = 5"

definition offsetPoint :: "real \<Rightarrow> real \<Rightarrow> real \<Rightarrow> real \<Rightarrow> coord" where
  "offsetPoint lat lon bearingDeg distMeters =
     (let perpRad = ((bearingDeg + 90) * pi) / 180;
          dy = distMeters * cos perpRad;
          dx = distMeters * sin perpRad;
          latOffset = dy / 111111;
          lonOffset = dx / (111111 * cos ((lat * pi) / 180))
      in (lon + lonOffset, lat + latOffset))"

section \<open>SegmentScorer\<close>

record SamplePoint =
  pt_lat :: real
  pt_lon :: real

record HourlyWindEntry =
  time :: string
  speed_kmh :: real
  direction_deg :: real

text \<open>
  \<open>nearestSampleIndex\<close>: the loop keeps the index of the smallest squared distance seen;
  \<open>bestD\<close> starts at \<open>Infinity\<close>, here \<open>None\<close>.
\<close>

definition nearest_step :: "real \<Rightarrow> real \<Rightarrow> SamplePoint list \<Rightarrow> nat \<times> real option \<Rightarrow> nat \<Rightarrow> nat \<times> real option" where
  "nearest_step midLat midLng pts st i =
     (let d = (pt_lat (pts ! i) - midLat)\<^sup>2 + (pt_lon (pts ! i) - midLng)\<^sup>2
      in if (case snd st of None \<Rightarrow> True | Some bestD \<Rightarrow> d < bestD) then (i, Some d) else st)"

definition nearestSampleIndex :: "real \<Rightarrow> real \<Rightarrow> SamplePoint list \<Rightarrow> nat" where
  "nearestSampleIndex midLat midLng pts =
     fst (foldl (nearest_step midLat midLng pts) (0, None) [0..<length pts])"

text \<open>The undirected edge key of two route points, as the string the source builds.\<close>

definition getEdgeKey :: "coord \<Rightarrow> coord \<Rightarrow> string" where
  "getEdgeKey p1 p2 =
     (let k1 = toFixed (snd p1) 5 @ '','' @ toFixed (fst p1) 5;
          k2 = toFixed (snd p2) 5 @ '','' @ toFixed (fst p2) 5
      in if k1 < k2 then k1 @ ''|'' @ k2 else k2 @ ''|'' @ k1)"

text \<open>The pre-pass: how many segments of the route have each edge key.\<close>

definition count_edge :: "coord list \<Rightarrow> (string \<rightharpoonup> nat) \<Rightarrow> nat \<Rightarrow> (string \<rightharpoonup> nat)" where
  "count_edge coords edgeCounts i =
     (let key = getEdgeKey (coords ! i) (coords ! (i + 1))
      in edgeCounts(key \<mapsto> (case edgeCounts key of None \<Rightarrow> 0 | Some c \<Rightarrow> c) + 1))"

definition edgeCounts_of :: "coord list \<Rightarrow> (string \<rightharpoonup> nat)" where
  "edgeCounts_of coords = foldl (count_edge coords) Map.empty [0..<length coords - 1]"

text \<open>
  \<open>allData[nearestIdx]?.[hourIndex] ?? null\<close>: a missing sample, a \<open>null\<close> series and an
  hour outside the series all give \<open>null\<close>.
\<close>

definition entry_at :: "HourlyWindEntry list option list \<Rightarrow> nat \<Rightarrow> int \<Rightarrow> HourlyWindEntry option" where
  "entry_at allData nearestIdx hourIndex =
     (if nearestIdx < length allData
      then (case allData ! nearestIdx of
              None \<Rightarrow> None
            | Some series \<Rightarrow>
                if 0 \<le> hourIndex \<and> nat hourIndex < length series
                then Some (series ! nat hourIndex) else None)
      else None)"

record SegmentData =
  sd_headwindRaw :: real
  sd_grade :: real
  sd_climbPenalty :: real
  sd_sufferRaw :: real
  sd_totalScore :: real
  sd_coords :: "coord list"

record Feature =
  score :: real
  headwindRaw :: real
  grade :: real
  climbPenalty :: real
  sufferRaw :: real
  totalScore :: real
  coordinates :: "coord list"

record FeatureCollection =
  features :: "Feature list"

text \<open>Lines 264-265: the headwind of a segment from the wind entry chosen for it.\<close>

definition headwindRaw_of :: "real \<Rightarrow> HourlyWindEntry option \<Rightarrow> real" where
  "headwindRaw_of bearing entry =
     (let hw = (case entry of
                  Some e \<Rightarrow> headwindComponent bearing (direction_deg e) (speed_kmh e)
                | None \<Rightarrow> 0)
      in max 0 hw)"

text \<open>Lines 267-282: grade and climb penalty of segment \<open>i\<close>, as the pair \<open>(grade, climbPenalty)\<close>.\<close>

definition grade_climb :: "bool \<Rightarrow> real list \<Rightarrow> nat \<Rightarrow> real \<Rightarrow> real \<Rightarrow> real \<Rightarrow> real \<Rightarrow> real \<times> real" where
  "grade_climb hasElev elevations i lat1 lng1 lat2 lng2 =
     (if hasElev
      then (let distM = haversineMeters lat1 lng1 lat2 lng2
            in if distM > 0.1
               then (let rawGrade = (elevations ! (i + 1) - elevations ! i) / distM;
                         g = max (- GRADE_CLAMP) (min GRADE_CLAMP rawGrade)
                     in if g > 0 then (g, CLIMB_K * g) else (g, 0))
               else (0, 0))
      else (0, 0))"

text \<open>
  One turn of the main loop: the state is the \<open>edgeVisited\<close> map and the segments pushed
  so far.
\<close>

definition segment_step ::
  "coord list \<Rightarrow> SamplePoint list \<Rightarrow> HourlyWindEntry list option list \<Rightarrow> int \<Rightarrow> real list \<Rightarrow> bool \<Rightarrow>
   (string \<rightharpoonup> nat) \<Rightarrow> (string \<rightharpoonup> nat) \<times> SegmentData list \<Rightarrow> nat \<Rightarrow> (string \<rightharpoonup> nat) \<times> SegmentData list" where
  "segment_step coords samplePoints allData hourIndex elevations hasElev edgeCounts st i =
     (let edgeVisited = fst st;
          segmentData = snd st;
          lng1 = fst (coords ! i); lat1 = snd (coords ! i);
          lng2 = fst (coords ! (i + 1)); lat2 = snd (coords ! (i + 1));
          midLat = (lat1 + lat2) / 2;
          midLng = (lng1 + lng2) / 2;
          bearing = computeBearing lat1 lng1 lat2 lng2;
          nearestIdx = (if length samplePoints > 0
                        then nearestSampleIndex midLat midLng samplePoints else 0);
          entry = entry_at allData nearestIdx hourIndex;
          hwRaw = headwindRaw_of bearing entry;
          gc = grade_climb hasElev elevations i lat1 lng1 lat2 lng2;
          suffer = hwRaw + snd gc;
          edgeKey = getEdgeKey (coords ! i) (coords ! (i + 1));
          totalVisits = (case edgeCounts edgeKey of None \<Rightarrow> 1 | Some c \<Rightarrow> if c = 0 then 1 else c);
          visitsSoFar = (case edgeVisited edgeKey of None \<Rightarrow> 0 | Some v \<Rightarrow> v);
          sign = (if visitsSoFar = 0 then 1 else - 1);
          edgeVisited' = (if totalVisits > 1 then edgeVisited(edgeKey \<mapsto> visitsSoFar + 1)
                          else edgeVisited);
          finalCoords = (if totalVisits > 1
                         then [offsetPoint lat1 lng1 bearing (sign * OFFSET_METERS),
                               offsetPoint lat2 lng2 bearing (sign * OFFSET_METERS)]
                         else [coords ! i, coords ! (i + 1)])
      in (edgeVisited',
          segmentData @ [\<lparr>sd_headwindRaw = hwRaw, sd_grade = fst gc, sd_climbPenalty = snd gc,
                           sd_sufferRaw = suffer, sd_totalScore = 0, sd_coords = finalCoords\<rparr>]))"

definition feature_of :: "real \<Rightarrow> SegmentData \<Rightarrow> Feature" where
  "feature_of maxRaw seg =
     \<lparr>score = sd_sufferRaw seg / maxRaw,
      headwindRaw = sd_headwindRaw seg,
      grade = sd_grade seg,
      climbPenalty = sd_climbPenalty seg,
      sufferRaw = sd_sufferRaw seg,
      totalScore = sd_sufferRaw seg / maxRaw,
      coordinates = sd_coords seg\<rparr>"

text \<open>The main pass over the segments \<open>0 .. coords.length - 2\<close>, after the pre-pass.\<close>

definition segmentData_of ::
  "coord list \<Rightarrow> SamplePoint list \<Rightarrow> HourlyWindEntry list option list \<Rightarrow> int \<Rightarrow> real list \<Rightarrow> bool \<Rightarrow>
   SegmentData list" where
  "segmentData_of coords samplePoints allData hourIndex elevations hasElev =
     snd (foldl (segment_step coords samplePoints allData hourIndex elevations hasElev
                   (edgeCounts_of coords))
                (Map.empty, []) [0..<length coords - 1])"

definition buildSegmentCollection ::
  "coord list \<Rightarrow> SamplePoint list \<Rightarrow> HourlyWindEntry list option list \<Rightarrow> int \<Rightarrow> real list \<Rightarrow> bool \<Rightarrow>
   FeatureCollection" where
  "buildSegmentCollection coords samplePoints allData hourIndex elevations includeElevation =
     (if length coords < 2 then \<lparr>features = []\<rparr>
      else (let hasElev = (includeElevation \<and> length elevations = length coords);
                segmentData = segmentData_of coords samplePoints allData hourIndex elevations hasElev;
                raws = map sd_sufferRaw segmentData;
                maxRaw = foldr max raws (1 / 1000000)
            in \<lparr>features = map (feature_of maxRaw) segmentData\<rparr>))"

section \<open>What one segment of a route is scored from\<close>

text \<open>
  The quantities the main loop computes for segment \<open>i\<close> from the route alone: its travel
  bearing, the wind entry chosen for it, and its haversine length.
\<close>

definition seg_bearing :: "coord list \<Rightarrow> nat \<Rightarrow> real" where
  "seg_bearing coords i =
     computeBearing (snd (coords ! i)) (fst (coords ! i)) (snd (coords ! (i + 1))) (fst (coords ! (i + 1)))"

definition seg_entry ::
  "coord list \<Rightarrow> SamplePoint list \<Rightarrow> HourlyWindEntry list option list \<Rightarrow> int \<Rightarrow> nat \<Rightarrow>
   HourlyWindEntry option" where
  "seg_entry coords samplePoints allData hourIndex i =
     entry_at allData
       (if length samplePoints > 0
        then nearestSampleIndex ((snd (coords ! i) + snd (coords ! (i + 1))) / 2)
               ((fst (coords ! i) + fst (coords ! (i + 1))) / 2) samplePoints
        else 0)
       hourIndex"

definition seg_distance :: "coord list \<Rightarrow> nat \<Rightarrow> real" where
  "seg_distance coords i =
     haversineMeters (snd (coords ! i)) (fst (coords ! i)) (snd (coords ! (i + 1))) (fst (coords ! (i + 1)))"

definition seg_stats ::
  "coord list \<Rightarrow> SamplePoint list \<Rightarrow> HourlyWindEntry list option list \<Rightarrow> int \<Rightarrow> real list \<Rightarrow> bool \<Rightarrow> nat \<Rightarrow>
   real \<times> real \<times> real \<times> real" where
  "seg_stats coords samplePoints allData hourIndex elevations hasElev i =
     (let hw = headwindRaw_of (seg_bearing coords i) (seg_entry coords samplePoints allData hourIndex i);
          gc = grade_climb hasElev elevations i (snd (coords ! i)) (fst (coords ! i))
                 (snd (coords ! (i + 1))) (fst (coords ! (i + 1)))
      in (hw, fst gc, snd gc, hw + snd gc))"

definition stats_of :: "SegmentData \<Rightarrow> real \<times> real \<times> real \<times> real" where
  "stats_of seg = (sd_headwindRaw seg, sd_grade seg, sd_climbPenalty seg, sd_sufferRaw seg)"

section \<open>WindFetchService\<close>

text \<open>
  The module keeps two maps: \<open>cache\<close> (key to the hourly series) and \<open>inflight\<close> (key to
  the promise of the request under way). A promise is named by the number of the external
  request that backs it; \<open>requests\<close> is the log of every \<open>fetch\<close> issued, in order, each
  with the key and coordinates captured by its callbacks and the state of its promise.
\<close>

datatype fetch_error =
    NetworkError string  \<comment> \<open>\<open>fetch\<close> itself rejects: the service is unreachable\<close>
  | HttpError nat  \<comment> \<open>\<open>Error(`Open-Meteo HTTP ${r.status}`)\<close>\<close>
  | BodyError  \<comment> \<open>\<open>r.json()\<close> rejects, or \<open>json.hourly\<close> is not there\<close>

record Hourly =
  hourly_time :: "string list"
  windspeed_10m :: "real list"
  winddirection_10m :: "real list"

datatype response =
    Unreachable string
  | Http nat "Hourly option"  \<comment> \<open>the status, and the body when it parses\<close>

datatype promise = Pending | Fulfilled "HourlyWindEntry list" | Rejected fetch_error

record request =
  req_key :: string
  req_lat :: real
  req_lon :: real
  req_state :: promise

record WindService =
  cache :: "string \<rightharpoonup> HourlyWindEntry list"
  inflight :: "string \<rightharpoonup> nat"
  requests :: "request list"

definition init_service :: WindService where
  "init_service = \<lparr>cache = Map.empty, inflight = Map.empty, requests = []\<rparr>"

definition cacheKey :: "real \<Rightarrow> real \<Rightarrow> string" where
  "cacheKey lat lon = toFixed lat 4 @ '','' @ toFixed lon 4"

text \<open>
  What the caller of the async function gets: a value that is already there, or the
  outcome of promise \<open>p\<close> once it settles.
\<close>

datatype fetch_result = Now "HourlyWindEntry list" | Await nat

definition fetchWindForPoint :: "real \<Rightarrow> real \<Rightarrow> WindService \<Rightarrow> fetch_result \<times> WindService" where
  "fetchWindForPoint lat lon svc =
     (let key = cacheKey lat lon
      in case cache svc key of
           Some entries \<Rightarrow> (Now entries, svc)
         | None \<Rightarrow>
             (case inflight svc key of
                Some p \<Rightarrow> (Await p, svc)
              | None \<Rightarrow>
                  (let p = length (requests svc)
                   in (Await p,
                       svc\<lparr>inflight := (inflight svc)(key \<mapsto> p),
                           requests := requests svc @
                             [\<lparr>req_key = key, req_lat = lat, req_lon = lon, req_state = Pending\<rparr>]\<rparr>))))"

text \<open>\<open>r.ok\<close> of the Fetch API: the status is in the range 200-299.\<close>

definition response_ok :: "nat \<Rightarrow> bool" where
  "response_ok status = (200 \<le> status \<and> status \<le> 299)"

text \<open>The first \<open>then\<close>: a rejected \<open>fetch\<close>, a status that is not ok, a body that does not parse.\<close>

definition outcome_of :: "response \<Rightarrow> fetch_error + Hourly" where
  "outcome_of r =
     (case r of
        Unreachable msg \<Rightarrow> Inl (NetworkError msg)
      | Http status body \<Rightarrow>
          if \<not> response_ok status then Inl (HttpError status)
          else (case body of None \<Rightarrow> Inl BodyError | Some h \<Rightarrow> Inr h))"

text \<open>
  The second \<open>then\<close>: \<open>getTime\<close> stands for \<open>new Date(t).getTime()\<close> (\<open>None\<close> for a string
  that does not parse, whose comparison with \<open>now\<close> is false). \<open>Math.round\<close> rounds half up.
\<close>

definition entry_of :: "Hourly \<Rightarrow> nat \<Rightarrow> HourlyWindEntry" where
  "entry_of h i =
     \<lparr>time = hourly_time h ! i,
      speed_kmh = of_int (round (windspeed_10m h ! i * 10)) / 10,
      direction_deg = of_int (round (winddirection_10m h ! i))\<rparr>"

definition is_future :: "(string \<Rightarrow> real option) \<Rightarrow> real \<Rightarrow> HourlyWindEntry \<Rightarrow> bool" where
  "is_future getTime now e = (case getTime (time e) of None \<Rightarrow> False | Some t \<Rightarrow> t \<ge> now)"

definition entries_of :: "(string \<Rightarrow> real option) \<Rightarrow> real \<Rightarrow> Hourly \<Rightarrow> HourlyWindEntry list" where
  "entries_of getTime now h =
     take 24 (filter (is_future getTime now) (map (entry_of h) [0..<length (hourly_time h)]))"

text \<open>
  The callbacks of request \<open>p\<close>, run when its \<open>fetch\<close> completes with response \<open>r\<close> at time
  \<open>now\<close>. A promise settles once: nothing happens for a request that is not pending.
\<close>

definition settle :: "(string \<Rightarrow> real option) \<Rightarrow> real \<Rightarrow> nat \<Rightarrow> response \<Rightarrow> WindService \<Rightarrow> WindService" where
  "settle getTime now p r svc =
     (if p < length (requests svc) \<and> req_state (requests svc ! p) = Pending
      then (let key = req_key (requests svc ! p)
            in case outcome_of r of
                 Inr h \<Rightarrow>
                   (let entries = entries_of getTime now h
                    in svc\<lparr>cache := (cache svc)(key \<mapsto> entries),
                           inflight := (inflight svc)(key := None),
                           requests := (requests svc)[p := (requests svc ! p)\<lparr>req_state := Fulfilled entries\<rparr>]\<rparr>)
               | Inl err \<Rightarrow>
                   svc\<lparr>inflight := (inflight svc)(key := None),
                       requests := (requests svc)[p := (requests svc ! p)\<lparr>req_state := Rejected err\<rparr>]\<rparr>)
      else svc)"

text \<open>A run of the module: calls of \<open>fetchWindForPoint\<close> and completions of requests, in any order.\<close>

datatype event = Call real real | Settle nat response real

definition exec :: "(string \<Rightarrow> real option) \<Rightarrow> WindService \<Rightarrow> event \<Rightarrow> WindService" where
  "exec getTime svc ev =
     (case ev of
        Call lat lon \<Rightarrow> snd (fetchWindForPoint lat lon svc)
      | Settle p r now \<Rightarrow> settle getTime now p r svc)"

definition run :: "(string \<Rightarrow> real option) \<Rightarrow> event list \<Rightarrow> WindService" where
  "run getTime evs = foldl (exec getTime) init_service evs"

text \<open>The requests that are outstanding for a key.\<close>

definition outstanding :: "WindService \<Rightarrow> string \<Rightarrow> nat list" where
  "outstanding svc key =
     filter (\<lambda>p. req_key (requests svc ! p) = key \<and> req_state (requests svc ! p) = Pending)
       [0..<length (requests svc)]"

text \<open>
  The spec's words for the series a successful fetch keeps: the fetched hours, rounded,
  that are not before \<open>now\<close>, cut to the first 24.
\<close>

definition rounded_hours :: "Hourly \<Rightarrow> HourlyWindEntry list" where
  "rounded_hours h =
     map (\<lambda>(t, s, d). \<lparr>time = t, speed_kmh = of_int (round (s * 10)) / 10, direction_deg = of_int (round d)\<rparr>)
       (zip (hourly_time h) (zip (windspeed_10m h) (winddirection_10m h)))"

definition future_series :: "(string \<Rightarrow> real option) \<Rightarrow> real \<Rightarrow> Hourly \<Rightarrow> HourlyWindEntry list" where
  "future_series getTime now h = take 24 (filter (is_future getTime now) (rounded_hours h))"

text \<open>The invariant of every run.\<close>

definition wf_service :: "WindService \<Rightarrow> bool" where
  "wf_service svc =
     ((\<forall>k p. inflight svc k = Some p \<longrightarrow>
          p < length (requests svc) \<and> req_key (requests svc ! p) = k
          \<and> req_state (requests svc ! p) = Pending)
      \<and> (\<forall>p. p < length (requests svc) \<and> req_state (requests svc ! p) = Pending \<longrightarrow>
          inflight svc (req_key (requests svc ! p)) = Some p)
      \<and> (\<forall>k. inflight svc k \<noteq> None \<longrightarrow> cache svc k = None))"

text \<open>A sample clock, for the concrete runs below: two timestamps it can read.\<close>

definition clock :: "string \<Rightarrow> real option" where
  "clock t = (if t = ''2026-01-01T09:00'' then Some 9
              else if t = ''2026-01-01T11:00'' then Some 11 else None)"

section \<open>ConcurrencyLimitedPool\<close>

text \<open>
  Modelled from the spec: the pool \<open>pooled(tasks, k)\<close> is imported from
  \<open>./hooks/windArrows\<close>, which is not among the source files; only its call in
  \<open>refreshArrows\<close> is. The model follows section 4.3 and section 5 of the spec: tasks are
  started in order, at most \<open>k\<close> at a time; when a task settles, with success or with
  failure, its slot is released and only then is the next queued task admitted; the pool
  itself settles once no task is queued or active. A task is named by its position in the
  sequence.
\<close>

record Pool =
  pool_limit :: nat
  pool_queue :: "nat list"
  pool_active :: "nat list"
  pool_settled :: "(nat \<times> bool) list"

text \<open>
  Modelled from the spec: admitting queued tasks, in order, into the free slots ("never
  exceeding \<open>k\<close> concurrently active tasks").
\<close>

definition admit :: "Pool \<Rightarrow> Pool" where
  "admit p =
     (let free = pool_limit p - length (pool_active p)
      in p\<lparr>pool_queue := drop free (pool_queue p),
           pool_active := pool_active p @ take free (pool_queue p)\<rparr>)"

text \<open>Modelled from the spec: the pool right after \<open>pooled(tasks, k)\<close> is called with \<open>n\<close> tasks.\<close>

definition pooled_start :: "nat \<Rightarrow> nat \<Rightarrow> Pool" where
  "pooled_start n k = admit \<lparr>pool_limit = k, pool_queue = [0..<n], pool_active = [], pool_settled = []\<rparr>"

text \<open>
  Modelled from the spec: an active task settles, with success (\<open>True\<close>) or failure
  (\<open>False\<close>); the pool "must release a slot immediately on either success or failure
  before admitting the next queued task", and a failure cancels no sibling.
\<close>

definition task_settles :: "Pool \<Rightarrow> nat \<times> bool \<Rightarrow> Pool" where
  "task_settles p ev =
     (if fst ev \<in> set (pool_active p)
      then admit (p\<lparr>pool_active := removeAll (fst ev) (pool_active p),
                     pool_settled := pool_settled p @ [ev]\<rparr>)
      else p)"

definition pool_run :: "nat \<Rightarrow> nat \<Rightarrow> (nat \<times> bool) list \<Rightarrow> Pool" where
  "pool_run n k evs = foldl task_settles (pooled_start n k) evs"

text \<open>
  Modelled from the spec: the pool "resolves (or rejects) only once every task has
  settled", that is when nothing is queued or active.
\<close>

definition pool_done :: "Pool \<Rightarrow> bool" where
  "pool_done p = (pool_queue p = [] \<and> pool_active p = [])"

text \<open>A schedule in which every completion is that of a task active at that moment.\<close>

fun completions_from :: "Pool \<Rightarrow> (nat \<times> bool) list \<Rightarrow> bool" where
  "completions_from p [] = True"
| "completions_from p (ev # evs) = (fst ev \<in> set (pool_active p) \<and> completions_from (task_settles p ev) evs)"

definition pool_inv :: "nat \<Rightarrow> Pool \<Rightarrow> bool" where
  "pool_inv n p =
     (length (pool_active p) \<le> pool_limit p
      \<and> distinct (pool_queue p @ pool_active p @ map fst (pool_settled p))
      \<and> set (pool_queue p @ pool_active p @ map fst (pool_settled p)) = {0..<n}
      \<and> (pool_queue p = [] \<or> length (pool_active p) = pool_limit p))"

section \<open>Helper lemmas: remainders, angles, the main loop\<close>



lemma segment_step_stats:
  "map stats_of (snd (segment_step coords samplePoints allData hourIndex elevations hasElev edgeCounts st i))
     = map stats_of (snd st) @ [seg_stats coords samplePoints allData hourIndex elevations hasElev i]"
  by (simp add: segment_step_def seg_stats_def stats_of_def Let_def seg_bearing_def seg_entry_def)

lemma foldl_segment_step_stats:
  "map stats_of (snd (foldl (segment_step coords samplePoints allData hourIndex elevations hasElev edgeCounts) st idxs))
     = map stats_of (snd st) @ map (seg_stats coords samplePoints allData hourIndex elevations hasElev) idxs"
proof (induction idxs arbitrary: st)
  case Nil
  then show ?case by simp
next
  case (Cons i idxs)
  show ?case
    by (simp add: Cons.IH segment_step_stats)
qed

lemma stats_of_feature_of:
  "(headwindRaw (feature_of m seg), grade (feature_of m seg), climbPenalty (feature_of m seg),
    sufferRaw (feature_of m seg)) = stats_of seg"
  by (simp add: feature_of_def stats_of_def)

lemma foldr_max_ge_base: "e \<le> foldr max xs (e::real)"
  by (induction xs) auto

lemma foldr_max_ge_elem: "x \<in> set xs \<Longrightarrow> x \<le> foldr max xs (e::real)"
  by (induction xs) auto

lemma foldr_max_cases: "foldr max xs (e::real) = e \<or> foldr max xs e \<in> set xs"
  by (induction xs) (auto simp: max_def)

lemma segmentData_map_stats:
  "map stats_of (segmentData_of coords samplePoints allData hourIndex elevations hasElev)
     = map (seg_stats coords samplePoints allData hourIndex elevations hasElev) [0..<length coords - 1]"
  unfolding segmentData_of_def by (simp add: foldl_segment_step_stats)

lemma segmentData_length:
  "length (segmentData_of coords samplePoints allData hourIndex elevations hasElev) = length coords - 1"
  using arg_cong [OF segmentData_map_stats, of length coords samplePoints allData hourIndex elevations hasElev]
  by simp

lemma segmentData_nth:
  assumes "i < length coords - 1"
  shows "stats_of (segmentData_of coords samplePoints allData hourIndex elevations hasElev ! i)
           = seg_stats coords samplePoints allData hourIndex elevations hasElev i"
proof -
  have "stats_of (segmentData_of coords samplePoints allData hourIndex elevations hasElev ! i)
          = map stats_of (segmentData_of coords samplePoints allData hourIndex elevations hasElev) ! i"
    using assms by (simp add: segmentData_length)
  also have "\<dots> = seg_stats coords samplePoints allData hourIndex elevations hasElev i"
    using assms by (simp only: segmentData_map_stats) simp
  finally show ?thesis .
qed

lemma features_length:
  "2 \<le> length coords \<Longrightarrow>
   length (features (buildSegmentCollection coords samplePoints allData hourIndex elevations includeElevation))
     = length coords - 1"
  by (simp add: buildSegmentCollection_def Let_def segmentData_length)

lemma features_stats:
  assumes "2 \<le> length coords" "i < length coords - 1"
  shows "(headwindRaw (features (buildSegmentCollection coords samplePoints allData hourIndex elevations includeElevation) ! i),
          grade (features (buildSegmentCollection coords samplePoints allData hourIndex elevations includeElevation) ! i),
          climbPenalty (features (buildSegmentCollection coords samplePoints allData hourIndex elevations includeElevation) ! i),
          sufferRaw (features (buildSegmentCollection coords samplePoints allData hourIndex elevations includeElevation) ! i))
         = seg_stats coords samplePoints allData hourIndex elevations
              (includeElevation \<and> length elevations = length coords) i"
proof -
  let ?sd = "segmentData_of coords samplePoints allData hourIndex elevations
               (includeElevation \<and> length elevations = length coords)"
  let ?m = "foldr max (map sd_sufferRaw ?sd) (1 / 1000000)"
  have f: "features (buildSegmentCollection coords samplePoints allData hourIndex elevations includeElevation) ! i
             = feature_of ?m (?sd ! i)"
    using assms by (simp add: buildSegmentCollection_def Let_def segmentData_length)
  show ?thesis
    unfolding f stats_of_feature_of using assms(2) by (rule segmentData_nth)
qed

lemma features_score:
  assumes "2 \<le> length coords"
  shows "\<forall>f \<in> set (features (buildSegmentCollection coords samplePoints allData hourIndex elevations includeElevation)).
           score f = sufferRaw f / foldr max (map sufferRaw (features (buildSegmentCollection coords samplePoints allData hourIndex elevations includeElevation))) (1 / 1000000)"
  using assms
  by (auto simp: buildSegmentCollection_def Let_def feature_of_def o_def)

section \<open>Concrete bearings and distances\<close>

lemma sin_deg_pos: "0 < sin (pi / 180)"
  by (rule sin_gt_zero) (use pi_gt_zero in simp_all)

lemma js_rem_360_360: "js_rem 360 360 = 0"
  by (simp add: js_rem_def js_trunc_def)

lemma js_rem_540_360: "js_rem 540 360 = 180"
  by (simp add: js_rem_def js_trunc_def)

lemma bearing_north: "computeBearing 0 0 1 0 = 0"
  using sin_deg_pos
  by (simp add: computeBearing_def toRad_def Let_def atan2_def js_rem_360_360)

lemma bearing_south: "computeBearing 1 0 0 0 = 180"
  using sin_deg_pos
  by (simp add: computeBearing_def toRad_def Let_def atan2_def js_rem_540_360)

lemma smallestAngle_0_0: "smallestAngle 0 0 = 0"
  by (simp add: smallestAngle_def js_rem_def js_trunc_def)


lemma haversine_one_degree: "haversineMeters 0 0 1 0 = 6371000 * pi / 180"
proof -
  let ?t = "pi / 360"
  have s: "0 < sin ?t" by (rule sin_gt_zero) (use pi_gt_zero in simp_all)
  have c: "0 < cos ?t" by (rule cos_gt_zero) (use pi_gt_zero in simp_all)
  have sq: "sqrt ((sin ?t)\<^sup>2) = sin ?t" using s by simp
  have "1 - (sin ?t)\<^sup>2 = (cos ?t)\<^sup>2" by (simp add: cos_squared_eq)
  then have cq: "sqrt (1 - (sin ?t)\<^sup>2) = cos ?t" using c by simp
  have at: "arctan (sin ?t / cos ?t) = ?t"
    using arctan_tan [of ?t] pi_gt_zero by (simp add: tan_def)
  have a: "(sin (toRad (1 - 0) / 2))\<^sup>2
             + cos (toRad 0) * cos (toRad 1) * (sin (toRad (0 - 0) / 2))\<^sup>2 = (sin ?t)\<^sup>2"
    by (simp add: toRad_def)
  have "haversineMeters 0 0 1 0 = 6371000 * 2 * atan2 (sin ?t) (cos ?t)"
    unfolding haversineMeters_def Let_def a sq cq ..
  also have "atan2 (sin ?t) (cos ?t) = ?t"
    unfolding atan2_def using c at by simp
  finally show ?thesis by simp
qed

lemma haversine_same_point: "haversineMeters 0 0 0 0 = 0"
  by (simp add: haversineMeters_def toRad_def Let_def atan2_def)

section \<open>Routes shorter than two points\<close>

text \<open>
  C8. For a route of fewer than two coordinates (empty or a single point) the scoring
  operation returns the empty segment collection, whatever the sample points, the wind
  data, the hour index, the elevations and the elevation toggle are.
\<close>

theorem short_route_empty:
  "length coords < 2 \<Longrightarrow>
   buildSegmentCollection coords samplePoints allData hourIndex elevations includeElevation
     = \<lparr>features = []\<rparr>"
  by (simp add: buildSegmentCollection_def)

theorem short_route_empty_witness:
  "length [(0::real, 0::real)] < 2 \<and>
   buildSegmentCollection [(0, 0)] [\<lparr>pt_lat = 1, pt_lon = 2\<rparr>]
       [Some [\<lparr>time = ''t'', speed_kmh = 20, direction_deg = 45\<rparr>]] 0 [7] True
     = \<lparr>features = []\<rparr>"
  using short_route_empty [of "[(0, 0)]" "[\<lparr>pt_lat = 1, pt_lon = 2\<rparr>]"
       "[Some [\<lparr>time = ''t'', speed_kmh = 20, direction_deg = 45\<rparr>]]" 0 "[7]" True]
  by simp

section \<open>Headwind\<close>






lemma Math_PI_less_4: "Math_PI < 4"
  by (simp add: Math_PI_def)



lemma headwindRaw_of_Some:
  "headwindRaw_of b (Some e) = max 0 (speed_kmh e * cos (smallestAngle b (direction_deg e) * Math_PI / 180))"
  by (simp add: headwindRaw_of_def headwindComponent_def Let_def)

lemma headwindRaw_of_nonneg: "0 \<le> headwindRaw_of b entry"
  by (simp add: headwindRaw_of_def Let_def)







lemma seg_bearing_north: "seg_bearing [(0, 0), (0, 1)] 0 = 0"
  by (simp add: seg_bearing_def bearing_north)

lemma seg_distance_north: "seg_distance [(0, 0), (0, 1)] 0 = 6371000 * pi / 180"
  by (simp add: seg_distance_def haversine_one_degree)

lemma seg_distance_null: "seg_distance [(0, 0), (0, 0)] 0 = 0"
  by (simp add: seg_distance_def haversine_same_point)

lemma seg_entry_single:
  "seg_entry [(0, 0), (0, 1)] [\<lparr>pt_lat = 1 / 2, pt_lon = 0\<rparr>] [Some [e]] 0 0 = Some e"
  by (simp add: seg_entry_def entry_at_def nearestSampleIndex_def nearest_step_def)

lemma seg_entry_no_wind: "seg_entry coords [] [] hourIndex i = None"
  by (simp add: seg_entry_def entry_at_def)




section \<open>Grade and climb penalty\<close>

lemma grade_climb_cases:
  "grade_climb True elevations i lat1 lng1 lat2 lng2 =
     (let distM = haversineMeters lat1 lng1 lat2 lng2;
          g = max (- 0.2) (min 0.2 ((elevations ! (i + 1) - elevations ! i) / distM))
      in if 0.1 < distM then (g, if 0 < g then 80 * g else 0) else (0, 0))"
  unfolding grade_climb_def Let_def GRADE_CLAMP_def CLIMB_K_def
  by (simp only: if_True split: if_split) auto

text \<open>
  C4. With elevation enabled and one elevation per route point, the grade of segment \<open>i\<close>
  is \<open>(elevations[i+1] - elevations[i]) / distM\<close> clamped to \<open>[-0.2, 0.2]\<close> when the
  haversine length \<open>distM\<close> exceeds 0.1 m (the boundary value outside that range), and
  grade and climb penalty stay 0 when \<open>distM\<close> is at most 0.1 m. The climb penalty is
  \<open>80 * grade\<close> when the grade is positive and 0 otherwise, so \<open>sufferRaw\<close> is never below
  \<open>headwindRaw\<close>.
\<close>

theorem grade_clamped_and_climb_penalty:
  assumes len: "2 \<le> length coords" and i: "i < length coords - 1"
    and incl: "includeElevation" and cover: "length elevations = length coords"
  shows "let f = features (buildSegmentCollection coords samplePoints allData hourIndex
                             elevations includeElevation) ! i;
             distM = seg_distance coords i;
             rawGrade = (elevations ! (i + 1) - elevations ! i) / distM
         in (0.1 < distM \<longrightarrow> grade f = max (- 0.2) (min 0.2 rawGrade))
          \<and> (0.1 < distM \<and> 0.2 \<le> rawGrade \<longrightarrow> grade f = 0.2)
          \<and> (0.1 < distM \<and> rawGrade \<le> - 0.2 \<longrightarrow> grade f = - 0.2)
          \<and> (0.1 < distM \<and> - 0.2 \<le> rawGrade \<and> rawGrade \<le> 0.2 \<longrightarrow> grade f = rawGrade)
          \<and> (distM \<le> 0.1 \<longrightarrow> grade f = 0 \<and> climbPenalty f = 0)
          \<and> - 0.2 \<le> grade f \<and> grade f \<le> 0.2
          \<and> climbPenalty f = (if 0 < grade f then 80 * grade f else 0)
          \<and> 0 \<le> climbPenalty f
          \<and> sufferRaw f = headwindRaw f + climbPenalty f
          \<and> headwindRaw f \<le> sufferRaw f"
proof -
  define f where "f = features (buildSegmentCollection coords samplePoints allData hourIndex
                             elevations includeElevation) ! i"
  define distM where "distM = seg_distance coords i"
  define rawGrade where "rawGrade = (elevations ! (i + 1) - elevations ! i) / distM"
  define g where "g = max (- 0.2) (min 0.2 rawGrade)"
  have st: "(headwindRaw f, grade f, climbPenalty f, sufferRaw f)
              = seg_stats coords samplePoints allData hourIndex elevations True i"
    unfolding f_def
    using features_stats [OF len i, of samplePoints allData hourIndex elevations includeElevation]
          incl cover by simp
  have gc: "grade_climb True elevations i (snd (coords ! i)) (fst (coords ! i))
              (snd (coords ! (i + 1))) (fst (coords ! (i + 1)))
            = (if 0.1 < distM then (g, if 0 < g then 80 * g else 0) else (0, 0))"
    unfolding grade_climb_cases Let_def g_def rawGrade_def distM_def seg_distance_def ..
  note st' = st [unfolded seg_stats_def Let_def gc]
  from st' have gr: "grade f = (if 0.1 < distM then g else 0)"
    and cp: "climbPenalty f = (if 0.1 < distM then (if 0 < g then 80 * g else 0) else 0)"
    and su: "sufferRaw f = headwindRaw f + climbPenalty f"
    by (simp_all split: if_splits)
  have grng: "- 0.2 \<le> g \<and> g \<le> 0.2" unfolding g_def by simp
  have c1: "0.1 < distM \<longrightarrow> grade f = max (- 0.2) (min 0.2 rawGrade)"
    using gr g_def by simp
  have c2: "0.1 < distM \<and> 0.2 \<le> rawGrade \<longrightarrow> grade f = 0.2"
    using gr g_def by simp
  have c3: "0.1 < distM \<and> rawGrade \<le> - 0.2 \<longrightarrow> grade f = - 0.2"
    using gr g_def by simp
  have c4: "0.1 < distM \<and> - 0.2 \<le> rawGrade \<and> rawGrade \<le> 0.2 \<longrightarrow> grade f = rawGrade"
    using gr g_def by simp
  have c5: "distM \<le> 0.1 \<longrightarrow> grade f = 0 \<and> climbPenalty f = 0"
    using gr cp by simp
  have c6: "- 0.2 \<le> grade f \<and> grade f \<le> 0.2"
    using gr grng by simp
  have c7: "climbPenalty f = (if 0 < grade f then 80 * grade f else 0)"
    using gr cp by simp
  have c8: "0 \<le> climbPenalty f"
    using c7 by (simp split: if_splits)
  have c9: "headwindRaw f \<le> sufferRaw f"
    using su c8 by simp
  show ?thesis
    unfolding Let_def f_def [symmetric] distM_def [symmetric] rawGrade_def [symmetric]
    using c1 c2 c3 c4 c5 c6 c7 c8 su c9 by blast
qed

lemma one_degree_long: "(1 / 10 :: real) < 6371000 * pi / 180"
  using pi_ge_two by simp

lemma steep_raw_grade: "(1 / 5 :: real) \<le> (100000 - 0) / (6371000 * pi / 180)"
proof -
  have "pi < 4" by (rule pi_less_4)
  then have "6371000 * pi / 180 \<le> 5 * (100000::real)" by simp
  moreover have "(0::real) < 6371000 * pi / 180" using pi_gt_zero by simp
  ultimately show ?thesis by (simp add: field_simps)
qed

lemma steep_descent: "(0 - 100000) / (6371000 * pi / 180) \<le> (- (1 / 5) :: real)"
proof -
  have "pi < 4" by (rule pi_less_4)
  then have "6371000 * pi / 180 \<le> 5 * (100000::real)" by simp
  moreover have "(0::real) < 6371000 * pi / 180" using pi_gt_zero by simp
  ultimately show ?thesis by (simp add: field_simps)
qed

theorem grade_clamped_and_climb_penalty_witness:
  "2 \<le> length [(0::real, 0::real), (0, 1)] \<and> 0 < length [(0::real, 0::real), (0, 1)] - 1
   \<and> length [0::real, 100000] = length [(0::real, 0::real), (0, 1)]
   \<and> 0.1 < seg_distance [(0, 0), (0, 1)] 0
   \<and> 0.2 \<le> ([0, 100000] ! (0 + 1) - [0, 100000] ! 0) / seg_distance [(0, 0), (0, 1)] 0
   \<and> grade (features (buildSegmentCollection [(0, 0), (0, 1)] [] [] 0 [0, 100000] True) ! 0) = 0.2
   \<and> climbPenalty (features (buildSegmentCollection [(0, 0), (0, 1)] [] [] 0 [0, 100000] True) ! 0) = 16
   \<and> ([100000, 0] ! (0 + 1) - [100000, 0] ! 0) / seg_distance [(0, 0), (0, 1)] 0 \<le> - 0.2
   \<and> grade (features (buildSegmentCollection [(0, 0), (0, 1)] [] [] 0 [100000, 0] True) ! 0) = - 0.2
   \<and> climbPenalty (features (buildSegmentCollection [(0, 0), (0, 1)] [] [] 0 [100000, 0] True) ! 0) = 0
   \<and> seg_distance [(0, 0), (0, 0)] 0 \<le> 0.1
   \<and> grade (features (buildSegmentCollection [(0, 0), (0, 0)] [] [] 0 [0, 5] True) ! 0) = 0
   \<and> climbPenalty (features (buildSegmentCollection [(0, 0), (0, 0)] [] [] 0 [0, 5] True) ! 0) = 0"
  using grade_clamped_and_climb_penalty [of "[(0, 0), (0, 1)]" 0 True "[0, 100000]" "[]" "[]" 0]
        grade_clamped_and_climb_penalty [of "[(0, 0), (0, 1)]" 0 True "[100000, 0]" "[]" "[]" 0]
        grade_clamped_and_climb_penalty [of "[(0, 0), (0, 0)]" 0 True "[0, 5]" "[]" "[]" 0]
        one_degree_long steep_raw_grade steep_descent
  by (simp add: seg_distance_north seg_distance_null Let_def)

section \<open>Normalised scores\<close>

lemma grade_climb_snd_nonneg:
  "0 \<le> snd (grade_climb hasElev elevations i lat1 lng1 lat2 lng2)"
  by (simp add: grade_climb_def Let_def GRADE_CLAMP_def CLIMB_K_def)

lemma seg_stats_suffer_nonneg:
  "0 \<le> snd (snd (snd (seg_stats coords samplePoints allData hourIndex elevations hasElev i)))"
  by (simp add: seg_stats_def Let_def headwindRaw_of_nonneg grade_climb_snd_nonneg)

lemma features_suffer_nonneg:
  assumes len: "2 \<le> length coords"
    and f: "f \<in> set (features (buildSegmentCollection coords samplePoints allData hourIndex elevations includeElevation))"
  shows "0 \<le> sufferRaw f"
proof -
  from f obtain i where i: "i < length coords - 1"
    and fi: "f = features (buildSegmentCollection coords samplePoints allData hourIndex elevations includeElevation) ! i"
    using features_length [OF len, of samplePoints allData hourIndex elevations includeElevation]
    by (metis in_set_conv_nth)
  have "sufferRaw f = snd (snd (snd (seg_stats coords samplePoints allData hourIndex elevations
              (includeElevation \<and> length elevations = length coords) i)))"
    unfolding fi
    using features_stats [OF len i, of samplePoints allData hourIndex elevations includeElevation]
    by (metis snd_conv)
  then show ?thesis by (simp add: seg_stats_suffer_nonneg)
qed

lemma features_single:
  assumes "length coords = 2"
  shows "features (buildSegmentCollection coords samplePoints allData hourIndex elevations includeElevation)
         = [features (buildSegmentCollection coords samplePoints allData hourIndex elevations includeElevation) ! 0]"
proof -
  have "length (features (buildSegmentCollection coords samplePoints allData hourIndex elevations includeElevation)) = 1"
    using features_length [of coords samplePoints allData hourIndex elevations includeElevation] assms by simp
  then show ?thesis
    by (cases "features (buildSegmentCollection coords samplePoints allData hourIndex elevations includeElevation)") auto
qed

text \<open>
  C2, as amended. For every route of at least two coordinates the collection is not
  empty; every segment's normalised score is its \<open>sufferRaw\<close> divided by the largest
  \<open>sufferRaw\<close> of the route floored at \<open>10^-6\<close>, and lies in \<open>[0, 1]\<close>; whenever some
  segment's \<open>sufferRaw\<close> exceeds \<open>10^-6\<close>, every segment of maximal \<open>sufferRaw\<close> has
  score exactly 1 (and there is one); and if every segment's \<open>sufferRaw\<close> is exactly 0,
  every score is 0.
\<close>

theorem normalized_score_range:
  assumes len: "2 \<le> length coords"
  shows "let fs = features (buildSegmentCollection coords samplePoints allData hourIndex
                              elevations includeElevation);
             maxRaw = foldr max (map sufferRaw fs) (1 / 1000000)
         in fs \<noteq> []
          \<and> (\<forall>f \<in> set fs. score f = sufferRaw f / maxRaw \<and> 0 \<le> score f \<and> score f \<le> 1)
          \<and> ((\<exists>f \<in> set fs. sufferRaw f > 1 / 1000000) \<longrightarrow>
               (\<forall>f \<in> set fs. (\<forall>g \<in> set fs. sufferRaw g \<le> sufferRaw f) \<longrightarrow> score f = 1)
             \<and> (\<exists>f \<in> set fs. (\<forall>g \<in> set fs. sufferRaw g \<le> sufferRaw f) \<and> score f = 1))
          \<and> ((\<forall>f \<in> set fs. sufferRaw f = 0) \<longrightarrow> (\<forall>f \<in> set fs. score f = 0))"
proof -
  define fs where "fs = features (buildSegmentCollection coords samplePoints allData hourIndex
                              elevations includeElevation)"
  define maxRaw where "maxRaw = foldr max (map sufferRaw fs) (1 / 1000000)"
  have ne: "fs \<noteq> []"
    using features_length [OF len, of samplePoints allData hourIndex elevations includeElevation] len
    unfolding fs_def by auto
  have sc: "\<forall>f \<in> set fs. score f = sufferRaw f / maxRaw"
    unfolding fs_def maxRaw_def using features_score [OF len] by blast
  have nn: "\<forall>f \<in> set fs. 0 \<le> sufferRaw f"
    unfolding fs_def using features_suffer_nonneg [OF len] by blast
  have mpos: "0 < maxRaw"
    using foldr_max_ge_base [of "1 / 1000000" "map sufferRaw fs"] unfolding maxRaw_def by simp
  have mge: "\<forall>f \<in> set fs. sufferRaw f \<le> maxRaw"
    unfolding maxRaw_def by (auto intro: foldr_max_ge_elem)
  have rng: "\<forall>f \<in> set fs. score f = sufferRaw f / maxRaw \<and> 0 \<le> score f \<and> score f \<le> 1"
    using sc nn mge mpos by (simp add: divide_le_eq)
  have top: "(\<exists>f \<in> set fs. sufferRaw f > 1 / 1000000) \<longrightarrow>
               (\<forall>f \<in> set fs. (\<forall>g \<in> set fs. sufferRaw g \<le> sufferRaw f) \<longrightarrow> score f = 1)
             \<and> (\<exists>f \<in> set fs. (\<forall>g \<in> set fs. sufferRaw g \<le> sufferRaw f) \<and> score f = 1)"
  proof
    assume ex: "\<exists>f \<in> set fs. sufferRaw f > 1 / 1000000"
    then obtain h where h: "h \<in> set fs" "sufferRaw h > 1 / 1000000" by blast
    have "maxRaw \<noteq> 1 / 1000000"
      using mge h by fastforce
    then have "maxRaw \<in> set (map sufferRaw fs)"
      using foldr_max_cases [of "map sufferRaw fs" "1 / 1000000"] unfolding maxRaw_def by blast
    then obtain m where m: "m \<in> set fs" "sufferRaw m = maxRaw" by auto
    have a: "\<forall>f \<in> set fs. (\<forall>g \<in> set fs. sufferRaw g \<le> sufferRaw f) \<longrightarrow> score f = 1"
    proof (intro ballI impI)
      fix f assume f: "f \<in> set fs" and mx: "\<forall>g \<in> set fs. sufferRaw g \<le> sufferRaw f"
      have "sufferRaw f = maxRaw" using mx m mge f by fastforce
      then show "score f = 1" using sc f mpos by simp
    qed
    have "\<forall>g \<in> set fs. sufferRaw g \<le> sufferRaw m" using m mge by simp
    moreover have "score m = 1" using sc m mpos by simp
    ultimately show "(\<forall>f \<in> set fs. (\<forall>g \<in> set fs. sufferRaw g \<le> sufferRaw f) \<longrightarrow> score f = 1)
             \<and> (\<exists>f \<in> set fs. (\<forall>g \<in> set fs. sufferRaw g \<le> sufferRaw f) \<and> score f = 1)"
      using a m(1) by blast
  qed
  have zero: "(\<forall>f \<in> set fs. sufferRaw f = 0) \<longrightarrow> (\<forall>f \<in> set fs. score f = 0)"
    using sc by simp
  show ?thesis
    unfolding Let_def fs_def [symmetric] maxRaw_def [symmetric]
    using ne rng top zero by blast
qed

theorem normalized_score_range_witness:
  "2 \<le> length [(0::real, 0::real), (0, 1)]
   \<and> map sufferRaw (features (buildSegmentCollection [(0, 0), (0, 1)] [\<lparr>pt_lat = 1 / 2, pt_lon = 0\<rparr>]
        [Some [\<lparr>time = ''2026-01-01T00:00'', speed_kmh = 20, direction_deg = 0\<rparr>]] 0 [] False)) = [20]
   \<and> map score (features (buildSegmentCollection [(0, 0), (0, 1)] [\<lparr>pt_lat = 1 / 2, pt_lon = 0\<rparr>]
        [Some [\<lparr>time = ''2026-01-01T00:00'', speed_kmh = 20, direction_deg = 0\<rparr>]] 0 [] False)) = [1]
   \<and> map sufferRaw (features (buildSegmentCollection [(0, 0), (0, 1)] [] [] 0 [] False)) = [0]
   \<and> map score (features (buildSegmentCollection [(0, 0), (0, 1)] [] [] 0 [] False)) = [0]"
proof -
  let ?e = "\<lparr>time = ''2026-01-01T00:00'', speed_kmh = 20, direction_deg = 0\<rparr>"
  let ?fs = "features (buildSegmentCollection [(0, 0), (0, 1)] [\<lparr>pt_lat = 1 / 2, pt_lon = 0\<rparr>]
        [Some [?e]] 0 [] False)"
  let ?gs = "features (buildSegmentCollection [(0, 0), (0, 1)] [] [] 0 [] False)"
  have len: "2 \<le> length [(0::real, 0::real), (0, 1)]" by simp
  have fs1: "?fs = [?fs ! 0]" by (rule features_single) simp
  have gs1: "?gs = [?gs ! 0]" by (rule features_single) simp
  have "(headwindRaw (?fs ! 0), grade (?fs ! 0), climbPenalty (?fs ! 0), sufferRaw (?fs ! 0))
          = seg_stats [(0, 0), (0, 1)] [\<lparr>pt_lat = 1 / 2, pt_lon = 0\<rparr>] [Some [?e]] 0 [] False 0"
    using features_stats [of "[(0, 0), (0, 1)]" 0 "[\<lparr>pt_lat = 1 / 2, pt_lon = 0\<rparr>]" "[Some [?e]]" 0 "[]" False]
    by simp
  then have su: "sufferRaw (?fs ! 0) = 20"
    by (simp add: seg_stats_def Let_def seg_entry_single seg_bearing_north headwindRaw_of_Some
          smallestAngle_0_0 grade_climb_def)
  have "(headwindRaw (?gs ! 0), grade (?gs ! 0), climbPenalty (?gs ! 0), sufferRaw (?gs ! 0))
          = seg_stats [(0, 0), (0, 1)] [] [] 0 [] False 0"
    using features_stats [of "[(0, 0), (0, 1)]" 0 "[]" "[]" 0 "[]" False] by simp
  then have sg: "sufferRaw (?gs ! 0) = 0"
    by (simp add: seg_stats_def Let_def seg_entry_no_wind headwindRaw_of_def grade_climb_def)
  have raws_f: "map sufferRaw ?fs = [20]" by (subst fs1) (simp add: su)
  have raws_g: "map sufferRaw ?gs = [0]" by (subst gs1) (simp add: sg)
  have in_f: "?fs ! 0 \<in> set ?fs" by (subst (2) fs1) simp
  have in_g: "?gs ! 0 \<in> set ?gs" by (subst (2) gs1) simp
  have all_f: "\<forall>g \<in> set ?fs. sufferRaw g \<le> sufferRaw (?fs ! 0)" by (subst fs1) simp
  have all_g: "\<forall>f \<in> set ?gs. sufferRaw f = 0" by (subst gs1) (simp add: sg)
  note F = normalized_score_range [OF len, of "[\<lparr>pt_lat = 1 / 2, pt_lon = 0\<rparr>]" "[Some [?e]]" 0 "[]" False,
             unfolded Let_def]
  note G = normalized_score_range [OF len, of "[]" "[]" 0 "[]" False, unfolded Let_def]
  have ex_f: "\<exists>f \<in> set ?fs. 1 / 1000000 < sufferRaw f"
    using in_f su by (intro bexI [of _ "?fs ! 0"]) simp_all
  from F [THEN conjunct2, THEN conjunct2, THEN conjunct1, THEN mp, OF ex_f, THEN conjunct1]
  have "(\<forall>g \<in> set ?fs. sufferRaw g \<le> sufferRaw (?fs ! 0)) \<longrightarrow> score (?fs ! 0) = 1"
    using in_f by (rule bspec)
  then have "score (?fs ! 0) = 1" using all_f by (rule mp)
  then have scores_f: "map score ?fs = [1]" by (subst fs1) simp
  from G [THEN conjunct2, THEN conjunct2, THEN conjunct2, THEN mp, OF all_g]
  have "\<forall>f \<in> set ?gs. score f = 0" .
  then have "score (?gs ! 0) = 0" using in_g by (rule bspec)
  then have scores_g: "map score ?gs = [0]" by (subst gs1) simp
  show ?thesis using len raws_f scores_f raws_g scores_g by blast
qed

lemma gentle_climb_stats:
  "seg_stats [(0, 0), (0, 1)] [] [] 0 [0, 1 / 2000] True 0
     = (0, 9 / (637100000 * pi), 9 / (7963750 * pi), 9 / (7963750 * pi))"
proof -
  have g: "max (- 0.2) (min 0.2 ((1 / 2000) / (6371000 * pi / 180))) = 9 / (637100000 * pi)"
  proof -
    define v :: real where "v = 9 / (637100000 * pi)"
    have e: "(1 / 2000) / (6371000 * pi / 180) = v" by (simp add: v_def)
    have p: "0 < v" by (simp add: v_def)
    have "9 \<le> 127420000 * pi" using pi_ge_two by simp
    then have u: "v \<le> 0.2" by (simp add: v_def field_simps)
    have "max (- 0.2) (min 0.2 v) = v" using p u by (simp add: max_def min_def)
    then show ?thesis unfolding e v_def .
  qed
  have "grade_climb True [0, 1 / 2000] 0 0 0 1 0 = (9 / (637100000 * pi), 9 / (7963750 * pi))"
    using one_degree_long g
    by (simp add: grade_climb_cases haversine_one_degree Let_def)
  then show ?thesis
    by (simp add: seg_stats_def Let_def seg_entry_no_wind headwindRaw_of_def)
qed

lemma gentle_climb_small: "9 / (7963750 * pi) < (1 / 1000000 :: real)"
  using pi_ge_two by (simp add: field_simps)

text \<open>
  The claim as stated reads "if every segment's \<open>sufferRaw\<close> is about 0, all segments have
  normalised score 0". One degree of latitude due north with an elevation gain of half a
  millimetre and no wind: the only segment's \<open>sufferRaw\<close> is about \<open>3.6 * 10^-7\<close>, below
  the floor \<open>10^-6\<close>, and its score is about \<open>0.36\<close>, not 0.
\<close>

theorem near_zero_suffer_scores_nonzero:
  "map sufferRaw (features (buildSegmentCollection [(0, 0), (0, 1)] [] [] 0 [0, 1 / 2000] True))
     = [9 / (7963750 * pi)]
   \<and> map score (features (buildSegmentCollection [(0, 0), (0, 1)] [] [] 0 [0, 1 / 2000] True))
     = [7200 / (6371 * pi)]
   \<and> 9 / (7963750 * pi) < (1 / 1000000 :: real)
   \<and> 7200 / (6371 * pi) \<noteq> (0::real)
   \<and> \<not> ((\<forall>f \<in> set (features (buildSegmentCollection [(0, 0), (0, 1)] [] [] 0 [0, 1 / 2000] True)).
            sufferRaw f \<le> 1 / 1000000)
          \<longrightarrow> (\<forall>f \<in> set (features (buildSegmentCollection [(0, 0), (0, 1)] [] [] 0 [0, 1 / 2000] True)).
            score f = 0))"
proof -
  let ?fs = "features (buildSegmentCollection [(0, 0), (0, 1)] [] [] 0 [0, 1 / 2000] True)"
  have single: "?fs = [?fs ! 0]" by (rule features_single) simp
  have "(headwindRaw (?fs ! 0), grade (?fs ! 0), climbPenalty (?fs ! 0), sufferRaw (?fs ! 0))
          = seg_stats [(0, 0), (0, 1)] [] [] 0 [0, 1 / 2000] True 0"
    using features_stats [of "[(0, 0), (0, 1)]" 0 "[]" "[]" 0 "[0, 1 / 2000]" True] by simp
  then have su: "sufferRaw (?fs ! 0) = 9 / (7963750 * pi)"
    by (simp add: gentle_climb_stats)
  have raws: "map sufferRaw ?fs = [9 / (7963750 * pi)]"
    by (subst single) (simp add: su)
  have mx: "foldr max (map sufferRaw ?fs) (1 / 1000000) = 1 / 1000000"
    unfolding raws using gentle_climb_small by simp
  have "?fs ! 0 \<in> set ?fs" by (subst (2) single) simp
  then have "score (?fs ! 0) = sufferRaw (?fs ! 0) / foldr max (map sufferRaw ?fs) (1 / 1000000)"
    using features_score [of "[(0, 0), (0, 1)]" "[]" "[]" 0 "[0, 1 / 2000]" True] by simp
  then have sc: "score (?fs ! 0) = 7200 / (6371 * pi)"
    unfolding mx su by simp
  have scores: "map score ?fs = [7200 / (6371 * pi)]"
    by (subst single) (simp add: sc)
  have nz: "7200 / (6371 * pi) \<noteq> (0::real)" by simp
  have all_small: "\<forall>f \<in> set ?fs. sufferRaw f \<le> 1 / 1000000"
    using raws gentle_climb_small by (subst single) (simp add: su)
  have not_zero: "\<not> (\<forall>f \<in> set ?fs. score f = 0)"
    using scores nz by (subst single) (simp add: sc)
  show ?thesis
    using raws scores gentle_climb_small nz all_small not_zero by blast
qed

section \<open>Out-and-back edges\<close>

lemma digits_0: "digits 0 = ''0''"
  by (simp add: digits.simps digit_char_def)

lemma digits_100000: "digits 100000 = ''100000''"
  by (simp add: digits.simps digit_char_def)

lemma toFixed_0_5: "toFixed 0 5 = ''0.00000''"
  by (simp add: toFixed_def Let_def digits_0 eval_nat_numeral)

lemma toFixed_1_5: "toFixed 1 5 = ''1.00000''"
  by (simp add: toFixed_def Let_def digits_100000)

lemma edge_key_out: "getEdgeKey (0, 0) (0, 1) = ''0.00000,0.00000|1.00000,0.00000''"
  by (simp add: getEdgeKey_def toFixed_0_5 toFixed_1_5)

lemma edge_key_back: "getEdgeKey (0, 1) (0, 0) = ''0.00000,0.00000|1.00000,0.00000''"
  by (simp add: getEdgeKey_def toFixed_0_5 toFixed_1_5)

lemma offsetPoint_reverse:
  "offsetPoint lat lon (b + 180) (- d) = offsetPoint lat lon b d"
proof -
  have "((b + 180 + 90) * pi) / 180 = ((b + 90) * pi) / 180 + pi"
    by (simp add: field_simps)
  then show ?thesis
    unfolding offsetPoint_def Let_def by (simp only: sin_periodic_pi cos_periodic_pi) simp
qed

lemma offset_start_north: "offsetPoint 0 0 0 5 = (5 / 111111, 0)"
  by (simp add: offsetPoint_def Let_def)

lemma offset_end_north: "offsetPoint 1 0 0 5 = (5 / (111111 * cos (pi / 180)), 1)"
  by (simp add: offsetPoint_def Let_def)

lemma offset_start_south: "offsetPoint 1 0 180 (- 5) = (5 / (111111 * cos (pi / 180)), 1)"
  using offsetPoint_reverse [of 1 0 0 5] by (simp add: offset_end_north)

lemma offset_end_south: "offsetPoint 0 0 180 (- 5) = (5 / 111111, 0)"
  using offsetPoint_reverse [of 0 0 0 5] by (simp add: offset_start_north)

lemma edgeCounts_out_and_back:
  "edgeCounts_of [(0, 0), (0, 1), (0, 0)] ''0.00000,0.00000|1.00000,0.00000'' = Some 2"
proof -
  have "[0..<length [(0::real, 0::real), (0, 1), (0, 0)] - 1] = [0, 1]"
    by (simp add: upt_rec)
  then show ?thesis
    by (simp add: edgeCounts_of_def count_edge_def edge_key_out edge_key_back Let_def)
qed

lemma out_and_back_segments:
  "map sd_coords (segmentData_of [(0, 0), (0, 1), (0, 0)] [] [] 0 [] False)
          = [[(5 / 111111, 0), (5 / (111111 * cos (pi / 180)), 1)],
             [(5 / (111111 * cos (pi / 180)), 1), (5 / 111111, 0)]]"
proof -
  let ?R = "[(0::real, 0::real), (0, 1), (0, 0)]"
  let ?K = "''0.00000,0.00000|1.00000,0.00000''"
  let ?step = "segment_step ?R [] [] 0 [] False (edgeCounts_of ?R)"
  have idx: "[0..<length ?R - 1] = [0, 1]"
    by (simp add: upt_rec)
  have s0: "map sd_coords (snd (?step (Map.empty, []) 0))
            = [[(5 / 111111, 0), (5 / (111111 * cos (pi / 180)), 1)]]"
    and v0: "fst (?step (Map.empty, []) 0) ?K = Some 1"
    by (simp_all add: segment_step_def Let_def edge_key_out edgeCounts_out_and_back bearing_north
          OFFSET_METERS_def offset_start_north offset_end_north)
  have s1: "map sd_coords (snd (?step st 1))
            = map sd_coords (snd st) @ [[(5 / (111111 * cos (pi / 180)), 1), (5 / 111111, 0)]]"
    if "fst st ?K = Some 1" for st
    using that
    by (simp add: segment_step_def Let_def edge_key_back edgeCounts_out_and_back bearing_south
          OFFSET_METERS_def offset_start_south offset_end_south)
  have "segmentData_of ?R [] [] 0 [] False = snd (?step (?step (Map.empty, []) 0) 1)"
    unfolding segmentData_of_def idx by (simp only: foldl.simps)
  then show ?thesis
    by (simp only: s1 [OF v0] s0 append.simps)
qed

text \<open>
  C1. The route \<open>[[0,0],[0,1],[0,0]]\<close> goes one degree north along the meridian and back.
  The first traversal is displaced by \<open>+5\<close> m perpendicular to bearing 0 and the second
  by \<open>-5\<close> m perpendicular to bearing 180: both displacements point east, so the second
  geometry is the first one reversed and the two lines coincide instead of lying on
  opposite sides of the edge.
\<close>

theorem out_and_back_offsets_coincide:
  "map coordinates (features (buildSegmentCollection [(0, 0), (0, 1), (0, 0)] [] [] 0 [] False))
     = [[(5 / 111111, 0), (5 / (111111 * cos (pi / 180)), 1)],
        [(5 / (111111 * cos (pi / 180)), 1), (5 / 111111, 0)]]"
proof -
  have c: "coordinates \<circ> feature_of m = sd_coords" for m
    by (rule ext) (simp add: feature_of_def)
  have "map coordinates (features (buildSegmentCollection [(0, 0), (0, 1), (0, 0)] [] [] 0 [] False))
          = map sd_coords (segmentData_of [(0, 0), (0, 1), (0, 0)] [] [] 0 [] False)"
    by (simp add: buildSegmentCollection_def Let_def c)
  then show ?thesis by (simp only: out_and_back_segments)
qed

section \<open>WindFetchService: the invariant of every run\<close>

lemma wf_init: "wf_service init_service"
  by (simp add: wf_service_def init_service_def)

lemma fetch_cached:
  "cache svc (cacheKey lat lon) = Some es \<Longrightarrow> fetchWindForPoint lat lon svc = (Now es, svc)"
  by (simp add: fetchWindForPoint_def)

lemma fetch_inflight:
  "cache svc (cacheKey lat lon) = None \<Longrightarrow> inflight svc (cacheKey lat lon) = Some p \<Longrightarrow>
   fetchWindForPoint lat lon svc = (Await p, svc)"
  by (simp add: fetchWindForPoint_def)

lemma fetch_new:
  "cache svc (cacheKey lat lon) = None \<Longrightarrow> inflight svc (cacheKey lat lon) = None \<Longrightarrow>
   fetchWindForPoint lat lon svc =
     (Await (length (requests svc)),
      svc\<lparr>inflight := (inflight svc)(cacheKey lat lon \<mapsto> length (requests svc)),
          requests := requests svc @
            [\<lparr>req_key = cacheKey lat lon, req_lat = lat, req_lon = lon, req_state = Pending\<rparr>]\<rparr>)"
  by (simp add: fetchWindForPoint_def Let_def)

lemma wf_add_request:
  assumes wf: "wf_service svc"
    and nocache: "cache svc k = None" and noflight: "inflight svc k = None"
    and i': "inflight svc' = (inflight svc)(k \<mapsto> length (requests svc))"
    and r': "requests svc' = requests svc @ [r]"
    and rk: "req_key r = k" and rs: "req_state r = Pending"
    and c': "cache svc' = cache svc"
  shows "wf_service svc'"
proof -
  let ?n = "length (requests svc)"
  from wf have a: "\<And>j p. inflight svc j = Some p \<Longrightarrow>
          p < ?n \<and> req_key (requests svc ! p) = j \<and> req_state (requests svc ! p) = Pending"
    and b: "\<And>p. p < ?n \<Longrightarrow> req_state (requests svc ! p) = Pending \<Longrightarrow>
          inflight svc (req_key (requests svc ! p)) = Some p"
    and c: "\<And>j. inflight svc j \<noteq> None \<Longrightarrow> cache svc j = None"
    unfolding wf_service_def by blast+
  have p1: "p < length (requests svc') \<and> req_key (requests svc' ! p) = j
            \<and> req_state (requests svc' ! p) = Pending"
    if "inflight svc' j = Some p" for j p
  proof (cases "j = k")
    case True
    then have "p = ?n" using that i' by simp
    then show ?thesis using True r' rk rs by simp
  next
    case False
    then have "inflight svc j = Some p" using that i' by simp
    from a [OF this] show ?thesis using r' by (simp add: nth_append)
  qed
  have p2: "inflight svc' (req_key (requests svc' ! p)) = Some p"
    if "p < length (requests svc')" "req_state (requests svc' ! p) = Pending" for p
  proof (cases "p < ?n")
    case True
    then have old: "requests svc' ! p = requests svc ! p" using r' by (simp add: nth_append)
    then have "inflight svc (req_key (requests svc ! p)) = Some p"
      using b [OF True] that(2) by simp
    moreover from this have "req_key (requests svc ! p) \<noteq> k" using noflight by auto
    ultimately show ?thesis using old i' by simp
  next
    case False
    then have "p = ?n" using that(1) r' by simp
    then show ?thesis using r' rk i' by simp
  qed
  have p3: "cache svc' j = None" if "inflight svc' j \<noteq> None" for j
  proof (cases "j = k")
    case True
    then show ?thesis using nocache c' by simp
  next
    case False
    then have "inflight svc j \<noteq> None" using that i' by simp
    from c [OF this] show ?thesis using c' by simp
  qed
  show ?thesis
    unfolding wf_service_def using p1 p2 p3 by blast
qed

lemma wf_fetch:
  assumes wf: "wf_service svc"
  shows "wf_service (snd (fetchWindForPoint lat lon svc))"
proof (cases "cache svc (cacheKey lat lon)")
  case (Some es)
  then show ?thesis using wf by (simp add: fetch_cached)
next
  case None
  show ?thesis
  proof (cases "inflight svc (cacheKey lat lon)")
    case (Some p)
    then show ?thesis using wf None by (simp add: fetch_inflight)
  next
    case noflight: None
    show ?thesis
      unfolding fetch_new [OF None noflight] snd_conv
      by (rule wf_add_request [OF wf None noflight,
            where r = "\<lparr>req_key = cacheKey lat lon, req_lat = lat, req_lon = lon, req_state = Pending\<rparr>"])
         simp_all
  qed
qed

lemma settle_idle:
  "\<not> (p < length (requests svc) \<and> req_state (requests svc ! p) = Pending) \<Longrightarrow>
   settle getTime now p r svc = svc"
  unfolding settle_def by (rule if_not_P)

lemma settle_failure:
  "p < length (requests svc) \<Longrightarrow> req_state (requests svc ! p) = Pending \<Longrightarrow>
   outcome_of r = Inl err \<Longrightarrow>
   settle getTime now p r svc =
     svc\<lparr>inflight := (inflight svc)(req_key (requests svc ! p) := None),
         requests := (requests svc)[p := (requests svc ! p)\<lparr>req_state := Rejected err\<rparr>]\<rparr>"
  by (simp add: settle_def Let_def)

lemma settle_success:
  "p < length (requests svc) \<Longrightarrow> req_state (requests svc ! p) = Pending \<Longrightarrow>
   outcome_of r = Inr h \<Longrightarrow>
   settle getTime now p r svc =
     svc\<lparr>cache := (cache svc)(req_key (requests svc ! p) \<mapsto> entries_of getTime now h),
         inflight := (inflight svc)(req_key (requests svc ! p) := None),
         requests := (requests svc)[p := (requests svc ! p)\<lparr>req_state := Fulfilled (entries_of getTime now h)\<rparr>]\<rparr>"
  by (simp add: settle_def Let_def)

lemma wf_close_request:
  assumes wf: "wf_service svc"
    and p: "p < length (requests svc)" and pend: "req_state (requests svc ! p) = Pending"
    and i': "inflight svc' = (inflight svc)(req_key (requests svc ! p) := None)"
    and r': "requests svc' = (requests svc)[p := (requests svc ! p)\<lparr>req_state := st\<rparr>]"
    and st: "st \<noteq> Pending"
    and c': "\<And>j. j \<noteq> req_key (requests svc ! p) \<Longrightarrow> cache svc' j = cache svc j"
  shows "wf_service svc'"
proof -
  let ?n = "length (requests svc)"
  let ?k = "req_key (requests svc ! p)"
  from wf have a: "\<And>j q. inflight svc j = Some q \<Longrightarrow>
          q < ?n \<and> req_key (requests svc ! q) = j \<and> req_state (requests svc ! q) = Pending"
    and b: "\<And>q. q < ?n \<Longrightarrow> req_state (requests svc ! q) = Pending \<Longrightarrow>
          inflight svc (req_key (requests svc ! q)) = Some q"
    and c: "\<And>j. inflight svc j \<noteq> None \<Longrightarrow> cache svc j = None"
    unfolding wf_service_def by blast+
  have cur: "inflight svc ?k = Some p" using b [OF p pend] .
  have p1: "q < length (requests svc') \<and> req_key (requests svc' ! q) = j
            \<and> req_state (requests svc' ! q) = Pending"
    if "inflight svc' j = Some q" for j q
  proof -
    from that i' have jk: "j \<noteq> ?k" and old: "inflight svc j = Some q"
      by (auto split: if_splits)
    from a [OF old] have q: "q < ?n" "req_key (requests svc ! q) = j" "req_state (requests svc ! q) = Pending"
      by simp_all
    have "q \<noteq> p" using q(2) jk by auto
    then show ?thesis using q r' by simp
  qed
  have p2: "inflight svc' (req_key (requests svc' ! q)) = Some q"
    if "q < length (requests svc')" "req_state (requests svc' ! q) = Pending" for q
  proof -
    have qp: "q \<noteq> p" using that r' st p by auto
    then have same: "requests svc' ! q = requests svc ! q" using r' by simp
    have qn: "q < ?n" using that(1) r' by simp
    have old: "inflight svc (req_key (requests svc ! q)) = Some q"
      using b [OF qn] that(2) same by simp
    have "req_key (requests svc ! q) \<noteq> ?k" using old cur qp by auto
    then show ?thesis using old same i' by simp
  qed
  have p3: "cache svc' j = None" if "inflight svc' j \<noteq> None" for j
  proof -
    from that i' have jk: "j \<noteq> ?k" and old: "inflight svc j \<noteq> None"
      by (auto split: if_splits)
    from c [OF old] c' [OF jk] show ?thesis by simp
  qed
  show ?thesis
    unfolding wf_service_def using p1 p2 p3 by blast
qed

lemma wf_settle:
  assumes wf: "wf_service svc"
  shows "wf_service (settle getTime now p r svc)"
proof (cases "p < length (requests svc) \<and> req_state (requests svc ! p) = Pending")
  case False
  then show ?thesis using wf by (simp add: settle_idle)
next
  case True
  then have p: "p < length (requests svc)" and pend: "req_state (requests svc ! p) = Pending"
    by simp_all
  show ?thesis
  proof (cases "outcome_of r")
    case (Inl err)
    show ?thesis
      unfolding settle_failure [OF p pend Inl]
      by (rule wf_close_request [OF wf p pend, where st = "Rejected err"]) simp_all
  next
    case (Inr h)
    show ?thesis
      unfolding settle_success [OF p pend Inr]
      by (rule wf_close_request [OF wf p pend, where st = "Fulfilled (entries_of getTime now h)"]) simp_all
  qed
qed

lemma wf_exec: "wf_service svc \<Longrightarrow> wf_service (exec getTime svc ev)"
  by (cases ev) (simp_all add: exec_def wf_fetch wf_settle)

lemma wf_foldl: "wf_service svc \<Longrightarrow> wf_service (foldl (exec getTime) svc evs)"
  by (induction evs arbitrary: svc) (simp_all add: wf_exec)

lemma wf_run: "wf_service (run getTime evs)"
  unfolding run_def by (rule wf_foldl [OF wf_init])

lemma wf_inflight_pending:
  "wf_service svc \<Longrightarrow> inflight svc k = Some p \<Longrightarrow>
   p < length (requests svc) \<and> req_key (requests svc ! p) = k \<and> req_state (requests svc ! p) = Pending"
  unfolding wf_service_def by blast

lemma wf_pending_inflight:
  "wf_service svc \<Longrightarrow> p < length (requests svc) \<Longrightarrow> req_state (requests svc ! p) = Pending \<Longrightarrow>
   inflight svc (req_key (requests svc ! p)) = Some p"
  unfolding wf_service_def by blast

lemma wf_inflight_uncached:
  "wf_service svc \<Longrightarrow> inflight svc k = Some p \<Longrightarrow> cache svc k = None"
  unfolding wf_service_def by blast

lemma distinct_all_equal_short:
  assumes "distinct xs" "\<forall>x \<in> set xs. x = a"
  shows "length xs \<le> 1"
proof -
  have "set xs \<subseteq> {a}" using assms(2) by auto
  then have "card (set xs) \<le> card {a}" by (intro card_mono) simp_all
  then show ?thesis using assms(1) by (simp add: distinct_card)
qed

lemma outstanding_at_most_one:
  assumes wf: "wf_service svc"
  shows "length (outstanding svc k) \<le> 1"
proof (cases "inflight svc k")
  case None
  have "outstanding svc k = []"
    unfolding outstanding_def
    using wf_pending_inflight [OF wf] None by (auto simp: filter_empty_conv)
  then show ?thesis by simp
next
  case (Some p)
  have "\<forall>q \<in> set (outstanding svc k). q = p"
    unfolding outstanding_def
    using wf_pending_inflight [OF wf] Some by auto
  moreover have "distinct (outstanding svc k)"
    unfolding outstanding_def by simp
  ultimately show ?thesis by (rule distinct_all_equal_short [rotated])
qed

lemma outstanding_inflight:
  assumes wf: "wf_service svc" and fl: "inflight svc k = Some p"
  shows "outstanding svc k = [p]"
proof -
  from wf_inflight_pending [OF wf fl] have "p \<in> set (outstanding svc k)"
    unfolding outstanding_def by simp
  moreover have "length (outstanding svc k) \<le> 1" by (rule outstanding_at_most_one [OF wf])
  ultimately show ?thesis
    by (cases "outstanding svc k") auto
qed

lemma outstanding_none:
  assumes wf: "wf_service svc" and fl: "inflight svc k = None"
  shows "outstanding svc k = []"
  unfolding outstanding_def
  using wf_pending_inflight [OF wf] fl by (auto simp: filter_empty_conv)

lemma two_calls_same_key:
  assumes key: "cacheKey lat1 lon1 = cacheKey lat2 lon2"
  shows "fst (fetchWindForPoint lat2 lon2 (snd (fetchWindForPoint lat1 lon1 svc)))
           = fst (fetchWindForPoint lat1 lon1 svc)
       \<and> snd (fetchWindForPoint lat2 lon2 (snd (fetchWindForPoint lat1 lon1 svc)))
           = snd (fetchWindForPoint lat1 lon1 svc)"
proof (cases "cache svc (cacheKey lat1 lon1)")
  case (Some es)
  then show ?thesis using key by (simp add: fetch_cached)
next
  case None
  show ?thesis
  proof (cases "inflight svc (cacheKey lat1 lon1)")
    case (Some p)
    then show ?thesis using None key by (simp add: fetch_inflight)
  next
    case noflight: None
    show ?thesis
      unfolding fetch_new [OF None noflight] fst_conv snd_conv
      using None key by (subst fetch_inflight [where p = "length (requests svc)"]; simp)+
  qed
qed

text \<open>
  C5. In every state a run of the module can reach, each key has at most one outstanding
  external request. A call whose key is cached returns the cached series and issues
  nothing; a call whose key is in flight returns the pending promise of the one outstanding
  request and issues nothing; a call whose key is neither is the first caller and issues
  exactly one request. Two calls in a row whose coordinates round to the same 4-decimal
  key return the same result, and the second one issues no request.
\<close>

theorem single_flight_per_key:
  "let svc = run getTime evs
   in (\<forall>k. length (outstanding svc k) \<le> 1)
    \<and> (\<forall>lat lon es. cache svc (cacheKey lat lon) = Some es \<longrightarrow>
          fetchWindForPoint lat lon svc = (Now es, svc))
    \<and> (\<forall>lat lon p. inflight svc (cacheKey lat lon) = Some p \<longrightarrow>
          fetchWindForPoint lat lon svc = (Await p, svc)
          \<and> outstanding svc (cacheKey lat lon) = [p])
    \<and> (\<forall>lat lon. cache svc (cacheKey lat lon) = None \<and> inflight svc (cacheKey lat lon) = None \<longrightarrow>
          outstanding svc (cacheKey lat lon) = []
          \<and> fst (fetchWindForPoint lat lon svc) = Await (length (requests svc))
          \<and> requests (snd (fetchWindForPoint lat lon svc)) =
              requests svc @ [\<lparr>req_key = cacheKey lat lon, req_lat = lat, req_lon = lon,
                               req_state = Pending\<rparr>]
          \<and> outstanding (snd (fetchWindForPoint lat lon svc)) (cacheKey lat lon)
              = [length (requests svc)])
    \<and> (\<forall>lat1 lon1 lat2 lon2. cacheKey lat1 lon1 = cacheKey lat2 lon2 \<longrightarrow>
          fst (fetchWindForPoint lat2 lon2 (snd (fetchWindForPoint lat1 lon1 svc)))
            = fst (fetchWindForPoint lat1 lon1 svc)
          \<and> snd (fetchWindForPoint lat2 lon2 (snd (fetchWindForPoint lat1 lon1 svc)))
            = snd (fetchWindForPoint lat1 lon1 svc)
          \<and> length (requests (snd (fetchWindForPoint lat2 lon2 (snd (fetchWindForPoint lat1 lon1 svc)))))
            \<le> length (requests svc) + 1)"
proof -
  define svc where "svc = run getTime evs"
  have wf: "wf_service svc" unfolding svc_def by (rule wf_run)
  have one: "\<forall>k. length (outstanding svc k) \<le> 1"
    using outstanding_at_most_one [OF wf] by blast
  have cached: "\<forall>lat lon es. cache svc (cacheKey lat lon) = Some es \<longrightarrow>
          fetchWindForPoint lat lon svc = (Now es, svc)"
    by (simp add: fetch_cached)
  have flying: "\<forall>lat lon p. inflight svc (cacheKey lat lon) = Some p \<longrightarrow>
          fetchWindForPoint lat lon svc = (Await p, svc)
          \<and> outstanding svc (cacheKey lat lon) = [p]"
    using wf_inflight_uncached [OF wf] outstanding_inflight [OF wf]
    by (simp add: fetch_inflight)
  have first: "outstanding svc (cacheKey lat lon) = []
          \<and> fst (fetchWindForPoint lat lon svc) = Await (length (requests svc))
          \<and> requests (snd (fetchWindForPoint lat lon svc)) =
              requests svc @ [\<lparr>req_key = cacheKey lat lon, req_lat = lat, req_lon = lon,
                               req_state = Pending\<rparr>]
          \<and> outstanding (snd (fetchWindForPoint lat lon svc)) (cacheKey lat lon)
              = [length (requests svc)]"
    if nc: "cache svc (cacheKey lat lon) = None" and nf: "inflight svc (cacheKey lat lon) = None"
    for lat lon
  proof -
    have wf': "wf_service (snd (fetchWindForPoint lat lon svc))" by (rule wf_fetch [OF wf])
    have fl': "inflight (snd (fetchWindForPoint lat lon svc)) (cacheKey lat lon)
                 = Some (length (requests svc))"
      by (simp add: fetch_new [OF nc nf])
    show ?thesis
      using outstanding_none [OF wf nf] outstanding_inflight [OF wf' fl']
      by (simp add: fetch_new [OF nc nf])
  qed
  have twice: "fst (fetchWindForPoint lat2 lon2 (snd (fetchWindForPoint lat1 lon1 svc)))
            = fst (fetchWindForPoint lat1 lon1 svc)
          \<and> snd (fetchWindForPoint lat2 lon2 (snd (fetchWindForPoint lat1 lon1 svc)))
            = snd (fetchWindForPoint lat1 lon1 svc)
          \<and> length (requests (snd (fetchWindForPoint lat2 lon2 (snd (fetchWindForPoint lat1 lon1 svc)))))
            \<le> length (requests svc) + 1"
    if key: "cacheKey lat1 lon1 = cacheKey lat2 lon2" for lat1 lon1 lat2 lon2
  proof -
    have "length (requests (snd (fetchWindForPoint lat1 lon1 svc))) \<le> length (requests svc) + 1"
      by (simp add: fetchWindForPoint_def Let_def split: option.splits)
    then show ?thesis using two_calls_same_key [OF key, of svc] by simp
  qed
  show ?thesis
    unfolding Let_def svc_def [symmetric]
    using one cached flying first twice by blast
qed

lemma run_append: "run getTime (evs @ rest) = foldl (exec getTime) (run getTime evs) rest"
  by (simp add: run_def)

lemma run_snoc_settle:
  "run getTime (evs @ [Settle p r now]) = settle getTime now p r (run getTime evs)"
  by (simp add: run_def exec_def)

text \<open>
  C7. When the request in flight for a key fails (the service is unreachable, the status
  is not 2xx, or the body does not parse), the in-flight entry of the key is cleared, the
  promise every waiter of the key holds is rejected with the error, the cache is
  unchanged and has no entry for the key, the in-flight entries of other keys and the
  other requests are untouched, and the next call for the key issues a new request.
\<close>

theorem failed_fetch_clears_inflight:
  assumes fl: "inflight (run getTime evs) k = Some p"
    and fail: "outcome_of r = Inl err"
  shows "let svc = run getTime evs;
             svc' = run getTime (evs @ [Settle p r now])
         in inflight svc' k = None
          \<and> req_state (requests svc' ! p) = Rejected err
          \<and> cache svc' k = None
          \<and> cache svc' = cache svc
          \<and> (\<forall>j. j \<noteq> k \<longrightarrow> inflight svc' j = inflight svc j)
          \<and> length (requests svc') = length (requests svc)
          \<and> (\<forall>q. q \<noteq> p \<longrightarrow> requests svc' ! q = requests svc ! q)
          \<and> (\<forall>lat lon. cacheKey lat lon = k \<longrightarrow>
                fst (fetchWindForPoint lat lon svc') = Await (length (requests svc'))
                \<and> requests (snd (fetchWindForPoint lat lon svc')) =
                    requests svc' @ [\<lparr>req_key = k, req_lat = lat, req_lon = lon, req_state = Pending\<rparr>])"
proof -
  define svc where "svc = run getTime evs"
  define svc' where "svc' = run getTime (evs @ [Settle p r now])"
  have wf: "wf_service svc" unfolding svc_def by (rule wf_run)
  from wf_inflight_pending [OF wf fl [folded svc_def]]
  have p: "p < length (requests svc)" and pk: "req_key (requests svc ! p) = k"
    and pend: "req_state (requests svc ! p) = Pending" by simp_all
  have nc: "cache svc k = None" using wf_inflight_uncached [OF wf fl [folded svc_def]] .
  have eq: "svc' = svc\<lparr>inflight := (inflight svc)(k := None),
         requests := (requests svc)[p := (requests svc ! p)\<lparr>req_state := Rejected err\<rparr>]\<rparr>"
    unfolding svc'_def run_snoc_settle svc_def [symmetric]
    using settle_failure [OF p pend fail] pk by simp
  have c1: "inflight svc' k = None" by (simp add: eq)
  have c2: "req_state (requests svc' ! p) = Rejected err" using p by (simp add: eq)
  have c3: "cache svc' = cache svc" by (simp add: eq)
  have c4: "cache svc' k = None" using nc c3 by simp
  have c5: "\<forall>j. j \<noteq> k \<longrightarrow> inflight svc' j = inflight svc j" by (simp add: eq)
  have c6: "length (requests svc') = length (requests svc)" by (simp add: eq)
  have c7: "\<forall>q. q \<noteq> p \<longrightarrow> requests svc' ! q = requests svc ! q" by (simp add: eq)
  have c8: "\<forall>lat lon. cacheKey lat lon = k \<longrightarrow>
                fst (fetchWindForPoint lat lon svc') = Await (length (requests svc'))
                \<and> requests (snd (fetchWindForPoint lat lon svc')) =
                    requests svc' @ [\<lparr>req_key = k, req_lat = lat, req_lon = lon, req_state = Pending\<rparr>]"
  proof (intro allI impI)
    fix lat lon assume key: "cacheKey lat lon = k"
    have "cache svc' (cacheKey lat lon) = None" "inflight svc' (cacheKey lat lon) = None"
      using c4 c1 key by simp_all
    from fetch_new [OF this]
    show "fst (fetchWindForPoint lat lon svc') = Await (length (requests svc'))
                \<and> requests (snd (fetchWindForPoint lat lon svc')) =
                    requests svc' @ [\<lparr>req_key = k, req_lat = lat, req_lon = lon, req_state = Pending\<rparr>]"
      using key by simp
  qed
  show ?thesis
    unfolding Let_def svc_def [symmetric] svc'_def [symmetric]
    using c1 c2 c3 c4 c5 c6 c7 c8 by blast
qed

lemma rounded_hours_by_index:
  assumes "length (hourly_time h) \<le> length (windspeed_10m h)"
    and "length (hourly_time h) \<le> length (winddirection_10m h)"
  shows "rounded_hours h = map (entry_of h) [0..<length (hourly_time h)]"
proof (rule nth_equalityI)
  show "length (rounded_hours h) = length (map (entry_of h) [0..<length (hourly_time h)])"
    using assms by (simp add: rounded_hours_def)
next
  fix i assume "i < length (rounded_hours h)"
  then have i: "i < length (hourly_time h)" using assms by (simp add: rounded_hours_def)
  then show "rounded_hours h ! i = map (entry_of h) [0..<length (hourly_time h)] ! i"
    using assms by (simp add: rounded_hours_def entry_of_def)
qed

lemma entries_of_future_series:
  assumes "length (hourly_time h) \<le> length (windspeed_10m h)"
    and "length (hourly_time h) \<le> length (winddirection_10m h)"
  shows "entries_of getTime now h = future_series getTime now h"
  by (simp add: entries_of_def future_series_def rounded_hours_by_index [OF assms])

lemma entries_of_length: "length (entries_of getTime now h) \<le> 24"
  by (simp add: entries_of_def)

lemma entries_of_member:
  assumes "e \<in> set (entries_of getTime now h)"
  shows "is_future getTime now e
       \<and> (\<exists>i < length (hourly_time h). e = entry_of h i)"
proof -
  from assms have "e \<in> set (filter (is_future getTime now) (map (entry_of h) [0..<length (hourly_time h)]))"
    unfolding entries_of_def by (rule in_set_takeD)
  then show ?thesis by auto
qed

lemma entry_of_rounded:
  "(\<exists>n::int. speed_kmh (entry_of h i) = of_int n / 10) \<and> (\<exists>n::int. direction_deg (entry_of h i) = of_int n)"
  by (auto simp: entry_of_def)

text \<open>
  C6. When the request in flight for a key succeeds with hourly arrays of matching
  length, the promise is fulfilled with, and the cache of the key is set to, the series of
  the spec: the fetched hours with speed rounded to one decimal and direction rounded to
  an integer, those whose timestamp is not before \<open>now\<close>, cut to the first 24; the
  in-flight entry of the key is cleared and other keys are untouched.
\<close>

theorem successful_fetch_caches_future_series:
  assumes fl: "inflight (run getTime evs) k = Some p"
    and ok: "response_ok status"
    and ls: "length (hourly_time h) \<le> length (windspeed_10m h)"
    and ld: "length (hourly_time h) \<le> length (winddirection_10m h)"
  shows "let svc = run getTime evs;
             svc' = run getTime (evs @ [Settle p (Http status (Some h)) now]);
             es = future_series getTime now h
         in req_state (requests svc' ! p) = Fulfilled es
          \<and> cache svc' k = Some es
          \<and> inflight svc' k = None
          \<and> es = take 24 (filter (is_future getTime now) (rounded_hours h))
          \<and> length es \<le> 24
          \<and> (\<forall>e \<in> set es. (\<exists>t. getTime (time e) = Some t \<and> now \<le> t)
                \<and> (\<exists>n::int. speed_kmh e = of_int n / 10)
                \<and> (\<exists>n::int. direction_deg e = of_int n))
          \<and> (\<forall>j. j \<noteq> k \<longrightarrow> cache svc' j = cache svc j \<and> inflight svc' j = inflight svc j)"
proof -
  define svc where "svc = run getTime evs"
  define svc' where "svc' = run getTime (evs @ [Settle p (Http status (Some h)) now])"
  define es where "es = future_series getTime now h"
  have wf: "wf_service svc" unfolding svc_def by (rule wf_run)
  from wf_inflight_pending [OF wf fl [folded svc_def]]
  have p: "p < length (requests svc)" and pk: "req_key (requests svc ! p) = k"
    and pend: "req_state (requests svc ! p) = Pending" by simp_all
  have out: "outcome_of (Http status (Some h)) = Inr h"
    using ok by (simp add: outcome_of_def)
  have es_eq: "entries_of getTime now h = es"
    unfolding es_def by (rule entries_of_future_series [OF ls ld])
  have eq: "svc' = svc\<lparr>cache := (cache svc)(k \<mapsto> es),
         inflight := (inflight svc)(k := None),
         requests := (requests svc)[p := (requests svc ! p)\<lparr>req_state := Fulfilled es\<rparr>]\<rparr>"
    unfolding svc'_def run_snoc_settle svc_def [symmetric]
    using settle_success [OF p pend out, of getTime now] pk es_eq by simp
  have c1: "req_state (requests svc' ! p) = Fulfilled es" using p by (simp add: eq)
  have c2: "cache svc' k = Some es" by (simp add: eq)
  have c3: "inflight svc' k = None" by (simp add: eq)
  have c4: "es = take 24 (filter (is_future getTime now) (rounded_hours h))"
    by (simp add: es_def future_series_def)
  have c5: "length es \<le> 24" using entries_of_length [of getTime now h] es_eq by simp
  have c6: "\<forall>e \<in> set es. (\<exists>t. getTime (time e) = Some t \<and> now \<le> t)
                \<and> (\<exists>n::int. speed_kmh e = of_int n / 10)
                \<and> (\<exists>n::int. direction_deg e = of_int n)"
  proof
    fix e assume "e \<in> set es"
    then have "e \<in> set (entries_of getTime now h)" using es_eq by simp
    from entries_of_member [OF this] obtain i where f: "is_future getTime now e" and e: "e = entry_of h i"
      by blast
    from f have "\<exists>t. getTime (time e) = Some t \<and> now \<le> t"
      by (auto simp: is_future_def split: option.splits)
    then show "(\<exists>t. getTime (time e) = Some t \<and> now \<le> t)
                \<and> (\<exists>n::int. speed_kmh e = of_int n / 10)
                \<and> (\<exists>n::int. direction_deg e = of_int n)"
      using entry_of_rounded [of h i] e by simp
  qed
  have c7: "\<forall>j. j \<noteq> k \<longrightarrow> cache svc' j = cache svc j \<and> inflight svc' j = inflight svc j"
    by (simp add: eq)
  show ?thesis
    unfolding Let_def svc_def [symmetric] svc'_def [symmetric] es_def [symmetric]
    using c1 c2 c3 c4 c5 c6 c7 by blast
qed

lemma cache_kept_exec:
  assumes wf: "wf_service svc" and c: "cache svc k = Some v"
  shows "cache (exec getTime svc ev) k = Some v"
proof (cases ev)
  case (Call lat lon)
  then show ?thesis using c
    by (simp add: exec_def fetchWindForPoint_def Let_def split: option.splits)
next
  case (Settle p r now)
  show ?thesis
  proof (cases "p < length (requests svc) \<and> req_state (requests svc ! p) = Pending")
    case False
    then show ?thesis using c Settle by (simp add: exec_def settle_idle)
  next
    case True
    then have p: "p < length (requests svc)" and pend: "req_state (requests svc ! p) = Pending"
      by simp_all
    have "inflight svc (req_key (requests svc ! p)) = Some p"
      by (rule wf_pending_inflight [OF wf p pend])
    then have "cache svc (req_key (requests svc ! p)) = None"
      by (rule wf_inflight_uncached [OF wf])
    then have "req_key (requests svc ! p) \<noteq> k" using c by auto
    then show ?thesis
      using c Settle p pend
      by (cases "outcome_of r") (simp_all add: exec_def settle_failure settle_success)
  qed
qed

lemma cache_kept_foldl:
  "wf_service svc \<Longrightarrow> cache svc k = Some v \<Longrightarrow> cache (foldl (exec getTime) svc evs) k = Some v"
  by (induction evs arbitrary: svc) (simp_all add: wf_exec cache_kept_exec)

lemma entries_of_all_past:
  assumes "\<forall>t \<in> set (hourly_time h). \<forall>ts. getTime t = Some ts \<longrightarrow> ts < now"
  shows "entries_of getTime now h = []"
proof -
  have "\<not> is_future getTime now (entry_of h i)" if "i < length (hourly_time h)" for i
  proof -
    have "hourly_time h ! i \<in> set (hourly_time h)" using that by simp
    then show ?thesis
      using assms by (auto simp: is_future_def entry_of_def split: option.splits)
  qed
  then have "filter (is_future getTime now) (map (entry_of h) [0..<length (hourly_time h)]) = []"
    by (auto simp: filter_empty_conv)
  then show ?thesis by (simp add: entries_of_def)
qed

text \<open>
  C10. When the request in flight for a key succeeds and every timestamp of the forecast
  is before \<open>now\<close>, the empty series is cached for the key, and after any further calls
  and completions a call for coordinates that round to the key returns the cached empty
  series and leaves the module as it is: no request is issued again.
\<close>

theorem empty_series_cached_for_good:
  assumes fl: "inflight (run getTime evs) k = Some p"
    and ok: "response_ok status"
    and past: "\<forall>t \<in> set (hourly_time h). \<forall>ts. getTime t = Some ts \<longrightarrow> ts < now"
    and key: "cacheKey lat lon = k"
  shows "let svc' = run getTime (evs @ [Settle p (Http status (Some h)) now] @ later)
         in cache svc' k = Some []
          \<and> fetchWindForPoint lat lon svc' = (Now [], svc')
          \<and> run getTime (evs @ [Settle p (Http status (Some h)) now] @ later @ [Call lat lon]) = svc'"
proof -
  define svc where "svc = run getTime evs"
  define mid where "mid = run getTime (evs @ [Settle p (Http status (Some h)) now])"
  define svc' where "svc' = run getTime (evs @ [Settle p (Http status (Some h)) now] @ later)"
  have wf: "wf_service svc" unfolding svc_def by (rule wf_run)
  from wf_inflight_pending [OF wf fl [folded svc_def]]
  have p: "p < length (requests svc)" and pk: "req_key (requests svc ! p) = k"
    and pend: "req_state (requests svc ! p) = Pending" by simp_all
  have out: "outcome_of (Http status (Some h)) = Inr h"
    using ok by (simp add: outcome_of_def)
  have "mid = settle getTime now p (Http status (Some h)) svc"
    unfolding mid_def run_snoc_settle svc_def ..
  then have "cache mid k = Some []"
    using settle_success [OF p pend out, of getTime now] pk entries_of_all_past [OF past] by simp
  moreover have "wf_service mid" unfolding mid_def by (rule wf_run)
  moreover have "svc' = foldl (exec getTime) mid later"
    unfolding svc'_def mid_def using run_append [of getTime "evs @ [Settle p (Http status (Some h)) now]" later]
    by simp
  ultimately have c1: "cache svc' k = Some []" by (simp add: cache_kept_foldl)
  then have c2: "fetchWindForPoint lat lon svc' = (Now [], svc')"
    using key by (simp add: fetch_cached)
  have "run getTime ((evs @ [Settle p (Http status (Some h)) now] @ later) @ [Call lat lon])
          = exec getTime svc' (Call lat lon)"
    unfolding svc'_def by (simp add: run_def)
  then have c3: "run getTime (evs @ [Settle p (Http status (Some h)) now] @ later @ [Call lat lon]) = svc'"
    using c2 by (simp add: exec_def)
  show ?thesis
    unfolding Let_def svc'_def [symmetric] using c1 c2 c3 by blast
qed

lemma digits_436500: "digits 436500 = ''436500''"
  by (simp add: digits.simps digit_char_def)

lemma digits_794000: "digits 794000 = ''794000''"
  by (simp add: digits.simps digit_char_def)

lemma toFixed_lat_a: "toFixed (4365001 / 100000) 4 = ''43.6500''"
  by (simp add: toFixed_def Let_def digits_436500)

lemma toFixed_lat_b: "toFixed (4365003 / 100000) 4 = ''43.6500''"
  by (simp add: toFixed_def Let_def digits_436500)

lemma toFixed_lon: "toFixed (- (397 / 5)) 4 = ''-79.4000''"
  by (simp add: toFixed_def Let_def digits_794000)

lemma cacheKey_a: "cacheKey (4365001 / 100000) (- (397 / 5)) = ''43.6500,-79.4000''"
  by (simp add: cacheKey_def toFixed_lat_a toFixed_lon)

lemma cacheKey_b: "cacheKey (4365003 / 100000) (- (397 / 5)) = ''43.6500,-79.4000''"
  by (simp add: cacheKey_def toFixed_lat_b toFixed_lon)

lemma run_first_call:
  "run getTime [Call lat lon] =
     \<lparr>cache = Map.empty, inflight = [cacheKey lat lon \<mapsto> 0],
      requests = [\<lparr>req_key = cacheKey lat lon, req_lat = lat, req_lon = lon, req_state = Pending\<rparr>]\<rparr>"
  by (simp add: run_def exec_def fetchWindForPoint_def init_service_def Let_def)

lemma run_nil: "run getTime [] = init_service"
  by (simp add: run_def)

theorem single_flight_per_key_witness:
  "cacheKey (4365001 / 100000) (- (397 / 5)) = cacheKey (4365003 / 100000) (- (397 / 5))
   \<and> cache (run (\<lambda>t. None) []) (cacheKey (4365001 / 100000) (- (397 / 5))) = None
   \<and> inflight (run (\<lambda>t. None) []) (cacheKey (4365001 / 100000) (- (397 / 5))) = None
   \<and> fst (fetchWindForPoint (4365001 / 100000) (- (397 / 5)) (run (\<lambda>t. None) [])) = Await 0
   \<and> fst (fetchWindForPoint (4365003 / 100000) (- (397 / 5))
        (snd (fetchWindForPoint (4365001 / 100000) (- (397 / 5)) (run (\<lambda>t. None) [])))) = Await 0
   \<and> requests (snd (fetchWindForPoint (4365003 / 100000) (- (397 / 5))
        (snd (fetchWindForPoint (4365001 / 100000) (- (397 / 5)) (run (\<lambda>t. None) [])))))
       = [\<lparr>req_key = ''43.6500,-79.4000'', req_lat = 4365001 / 100000, req_lon = - (397 / 5),
           req_state = Pending\<rparr>]"
proof -
  let ?svc = "run (\<lambda>t. None) []"
  note T = single_flight_per_key [of "\<lambda>t. None" "[]", unfolded Let_def]
  have key: "cacheKey (4365001 / 100000) (- (397 / 5)) = cacheKey (4365003 / 100000) (- (397 / 5))"
    by (simp add: cacheKey_a cacheKey_b)
  have nc: "cache ?svc (cacheKey (4365001 / 100000) (- (397 / 5))) = None"
    and nf: "inflight ?svc (cacheKey (4365001 / 100000) (- (397 / 5))) = None"
    and len: "length (requests ?svc) = 0" and rq: "requests ?svc = []"
    by (simp_all add: run_nil init_service_def)
  from T have first: "fst (fetchWindForPoint (4365001 / 100000) (- (397 / 5)) ?svc) = Await (length (requests ?svc))
      \<and> requests (snd (fetchWindForPoint (4365001 / 100000) (- (397 / 5)) ?svc)) =
          requests ?svc @ [\<lparr>req_key = cacheKey (4365001 / 100000) (- (397 / 5)),
             req_lat = 4365001 / 100000, req_lon = - (397 / 5), req_state = Pending\<rparr>]"
    using nc nf by blast
  from T have second: "fst (fetchWindForPoint (4365003 / 100000) (- (397 / 5))
        (snd (fetchWindForPoint (4365001 / 100000) (- (397 / 5)) ?svc)))
       = fst (fetchWindForPoint (4365001 / 100000) (- (397 / 5)) ?svc)
     \<and> snd (fetchWindForPoint (4365003 / 100000) (- (397 / 5))
        (snd (fetchWindForPoint (4365001 / 100000) (- (397 / 5)) ?svc)))
       = snd (fetchWindForPoint (4365001 / 100000) (- (397 / 5)) ?svc)"
    using key by blast
  show ?thesis
    using key nc nf first second by (simp add: len rq cacheKey_a)
qed

theorem failed_fetch_clears_inflight_witness:
  "inflight (run (\<lambda>t. None) [Call (4365001 / 100000) (- (397 / 5))]) ''43.6500,-79.4000'' = Some 0
   \<and> outcome_of (Http 500 None) = Inl (HttpError 500)
   \<and> outcome_of (Unreachable ''offline'') = Inl (NetworkError ''offline'')
   \<and> inflight (run (\<lambda>t. None) ([Call (4365001 / 100000) (- (397 / 5))] @ [Settle 0 (Http 500 None) 7]))
        ''43.6500,-79.4000'' = None
   \<and> req_state (requests (run (\<lambda>t. None)
        ([Call (4365001 / 100000) (- (397 / 5))] @ [Settle 0 (Http 500 None) 7])) ! 0)
        = Rejected (HttpError 500)
   \<and> cache (run (\<lambda>t. None) ([Call (4365001 / 100000) (- (397 / 5))] @ [Settle 0 (Http 500 None) 7]))
        ''43.6500,-79.4000'' = None
   \<and> fst (fetchWindForPoint (4365003 / 100000) (- (397 / 5))
        (run (\<lambda>t. None) ([Call (4365001 / 100000) (- (397 / 5))] @ [Settle 0 (Http 500 None) 7])))
        = Await 1"
proof -
  have fl: "inflight (run (\<lambda>t. None) [Call (4365001 / 100000) (- (397 / 5))]) ''43.6500,-79.4000'' = Some 0"
    by (simp add: run_first_call cacheKey_a)
  have fail: "outcome_of (Http 500 None) = Inl (HttpError 500)"
    by (simp add: outcome_of_def response_ok_def)
  have off: "outcome_of (Unreachable ''offline'') = Inl (NetworkError ''offline'')"
    by (simp add: outcome_of_def)
  have len: "length (requests (run (\<lambda>t. None) [Call (4365001 / 100000) (- (397 / 5))])) = 1"
    by (simp add: run_first_call)
  let ?svc' = "run (\<lambda>t. None) ([Call (4365001 / 100000) (- (397 / 5))] @ [Settle 0 (Http 500 None) 7])"
  note T = failed_fetch_clears_inflight [OF fl fail, of 7, unfolded Let_def]
  from T have c1: "inflight ?svc' ''43.6500,-79.4000'' = None" by blast
  from T have c2: "req_state (requests ?svc' ! 0) = Rejected (HttpError 500)" by blast
  from T have c3: "cache ?svc' ''43.6500,-79.4000'' = None" by blast
  from T have c4: "length (requests ?svc') = length (requests (run (\<lambda>t. None) [Call (4365001 / 100000) (- (397 / 5))]))"
    by blast
  from T have "fst (fetchWindForPoint (4365003 / 100000) (- (397 / 5)) ?svc') = Await (length (requests ?svc'))"
    using cacheKey_b by blast
  then have c5: "fst (fetchWindForPoint (4365003 / 100000) (- (397 / 5)) ?svc') = Await 1"
    unfolding c4 len .
  show ?thesis
    using fl fail off c1 c2 c3 c5 by blast
qed

lemma sample_series:
  "future_series clock 10
     \<lparr>hourly_time = [''2026-01-01T09:00'', ''2026-01-01T11:00''],
      windspeed_10m = [1234 / 100, 29 / 4], winddirection_10m = [363 / 2, 452 / 5]\<rparr>
   = [\<lparr>time = ''2026-01-01T11:00'', speed_kmh = 73 / 10, direction_deg = 90\<rparr>]"
  by (simp add: future_series_def rounded_hours_def is_future_def clock_def round_def)

theorem successful_fetch_caches_future_series_witness:
  "inflight (run clock [Call (4365001 / 100000) (- (397 / 5))]) ''43.6500,-79.4000'' = Some 0
   \<and> response_ok 200
   \<and> cache (run clock ([Call (4365001 / 100000) (- (397 / 5))] @
         [Settle 0 (Http 200 (Some \<lparr>hourly_time = [''2026-01-01T09:00'', ''2026-01-01T11:00''],
            windspeed_10m = [1234 / 100, 29 / 4], winddirection_10m = [363 / 2, 452 / 5]\<rparr>)) 10]))
       ''43.6500,-79.4000''
     = Some [\<lparr>time = ''2026-01-01T11:00'', speed_kmh = 73 / 10, direction_deg = 90\<rparr>]
   \<and> req_state (requests (run clock ([Call (4365001 / 100000) (- (397 / 5))] @
         [Settle 0 (Http 200 (Some \<lparr>hourly_time = [''2026-01-01T09:00'', ''2026-01-01T11:00''],
            windspeed_10m = [1234 / 100, 29 / 4], winddirection_10m = [363 / 2, 452 / 5]\<rparr>)) 10])) ! 0)
     = Fulfilled [\<lparr>time = ''2026-01-01T11:00'', speed_kmh = 73 / 10, direction_deg = 90\<rparr>]
   \<and> inflight (run clock ([Call (4365001 / 100000) (- (397 / 5))] @
         [Settle 0 (Http 200 (Some \<lparr>hourly_time = [''2026-01-01T09:00'', ''2026-01-01T11:00''],
            windspeed_10m = [1234 / 100, 29 / 4], winddirection_10m = [363 / 2, 452 / 5]\<rparr>)) 10]))
       ''43.6500,-79.4000'' = None"
proof -
  let ?h = "\<lparr>hourly_time = [''2026-01-01T09:00'', ''2026-01-01T11:00''],
            windspeed_10m = [1234 / 100, 29 / 4], winddirection_10m = [363 / 2, 452 / 5]\<rparr>"
  let ?svc' = "run clock ([Call (4365001 / 100000) (- (397 / 5))] @ [Settle 0 (Http 200 (Some ?h)) 10])"
  have fl: "inflight (run clock [Call (4365001 / 100000) (- (397 / 5))]) ''43.6500,-79.4000'' = Some 0"
    by (simp add: run_first_call cacheKey_a)
  have ok: "response_ok 200" by (simp add: response_ok_def)
  have ls: "length (hourly_time ?h) \<le> length (windspeed_10m ?h)" by simp
  have ld: "length (hourly_time ?h) \<le> length (winddirection_10m ?h)" by simp
  note T = successful_fetch_caches_future_series [OF fl ok ls ld, of 10, unfolded Let_def sample_series]
  from T have c1: "req_state (requests ?svc' ! 0)
      = Fulfilled [\<lparr>time = ''2026-01-01T11:00'', speed_kmh = 73 / 10, direction_deg = 90\<rparr>]" by blast
  from T have c2: "cache ?svc' ''43.6500,-79.4000''
      = Some [\<lparr>time = ''2026-01-01T11:00'', speed_kmh = 73 / 10, direction_deg = 90\<rparr>]" by blast
  from T have c3: "inflight ?svc' ''43.6500,-79.4000'' = None" by blast
  show ?thesis using fl ok c1 c2 c3 by blast
qed

theorem empty_series_cached_for_good_witness:
  "inflight (run clock [Call (4365001 / 100000) (- (397 / 5))]) ''43.6500,-79.4000'' = Some 0
   \<and> response_ok 200
   \<and> clock ''2026-01-01T09:00'' = Some 9
   \<and> cacheKey (4365003 / 100000) (- (397 / 5)) = ''43.6500,-79.4000''
   \<and> cache (run clock ([Call (4365001 / 100000) (- (397 / 5))] @
         [Settle 0 (Http 200 (Some \<lparr>hourly_time = [''2026-01-01T09:00''],
            windspeed_10m = [12], winddirection_10m = [180]\<rparr>)) 10] @
         [Call (4365001 / 100000) (- (397 / 5)), Settle 0 (Unreachable ''offline'') 11]))
       ''43.6500,-79.4000'' = Some []
   \<and> fst (fetchWindForPoint (4365003 / 100000) (- (397 / 5))
        (run clock ([Call (4365001 / 100000) (- (397 / 5))] @
         [Settle 0 (Http 200 (Some \<lparr>hourly_time = [''2026-01-01T09:00''],
            windspeed_10m = [12], winddirection_10m = [180]\<rparr>)) 10] @
         [Call (4365001 / 100000) (- (397 / 5)), Settle 0 (Unreachable ''offline'') 11]))) = Now []"
proof -
  let ?h = "\<lparr>hourly_time = [''2026-01-01T09:00''], windspeed_10m = [12], winddirection_10m = [180]\<rparr>"
  have fl: "inflight (run clock [Call (4365001 / 100000) (- (397 / 5))]) ''43.6500,-79.4000'' = Some 0"
    by (simp add: run_first_call cacheKey_a)
  have ok: "response_ok 200" by (simp add: response_ok_def)
  have nine: "clock ''2026-01-01T09:00'' = Some 9" by (simp add: clock_def)
  have past: "\<forall>t \<in> set (hourly_time ?h). \<forall>ts. clock t = Some ts \<longrightarrow> ts < 10"
    by (simp add: clock_def)
  note T = empty_series_cached_for_good [OF fl ok past cacheKey_b,
      of "[Call (4365001 / 100000) (- (397 / 5)), Settle 0 (Unreachable ''offline'') 11]",
      unfolded Let_def]
  from T have c1: "cache (run clock ([Call (4365001 / 100000) (- (397 / 5))] @
         [Settle 0 (Http 200 (Some ?h)) 10] @
         [Call (4365001 / 100000) (- (397 / 5)), Settle 0 (Unreachable ''offline'') 11]))
       ''43.6500,-79.4000'' = Some []" by blast
  from T have c2: "fst (fetchWindForPoint (4365003 / 100000) (- (397 / 5))
        (run clock ([Call (4365001 / 100000) (- (397 / 5))] @
         [Settle 0 (Http 200 (Some ?h)) 10] @
         [Call (4365001 / 100000) (- (397 / 5)), Settle 0 (Unreachable ''offline'') 11]))) = Now []"
    by simp
  show ?thesis using fl ok nine cacheKey_b c1 c2 by blast
qed

section \<open>ConcurrencyLimitedPool: bounded and complete\<close>

lemma admit_fields:
  "pool_limit (admit p) = pool_limit p" "pool_settled (admit p) = pool_settled p"
  by (simp_all add: admit_def Let_def)

lemma admit_inv:
  assumes "length (pool_active p) \<le> pool_limit p"
    and "distinct (pool_queue p @ pool_active p @ map fst (pool_settled p))"
    and "set (pool_queue p @ pool_active p @ map fst (pool_settled p)) = {0..<n}"
  shows "pool_inv n (admit p)"
proof -
  let ?free = "pool_limit p - length (pool_active p)"
  let ?q = "pool_queue p"
  have q: "pool_queue (admit p) = drop ?free ?q"
    and a: "pool_active (admit p) = pool_active p @ take ?free ?q"
    by (simp_all add: admit_def Let_def)
  define tk where "tk = take ?free ?q"
  define dr where "dr = drop ?free ?q"
  have split: "?q = tk @ dr" by (simp add: tk_def dr_def)
  have c1: "length (pool_active (admit p)) \<le> pool_limit (admit p)"
    using assms(1) by (simp add: a admit_fields)
  have q': "pool_queue (admit p) = dr" and a': "pool_active (admit p) = pool_active p @ tk"
    by (simp_all add: q a tk_def dr_def)
  have d0: "distinct ((tk @ dr) @ pool_active p @ map fst (pool_settled p))"
    using assms(2) by (simp only: split [symmetric])
  have s0: "set ((tk @ dr) @ pool_active p @ map fst (pool_settled p)) = {0..<n}"
    using assms(3) by (simp only: split [symmetric])
  have c2: "distinct (pool_queue (admit p) @ pool_active (admit p) @ map fst (pool_settled (admit p)))"
    unfolding q' a' admit_fields using d0 by auto
  have c3: "set (pool_queue (admit p) @ pool_active (admit p) @ map fst (pool_settled (admit p))) = {0..<n}"
    unfolding q' a' admit_fields using s0 by auto
  have c4: "pool_queue (admit p) = [] \<or> length (pool_active (admit p)) = pool_limit (admit p)"
    using assms(1) unfolding q a admit_fields by (auto simp: min_def)
  show ?thesis unfolding pool_inv_def using c1 c2 c3 c4 by blast
qed

lemma inv_start: "pool_inv n (pooled_start n k)"
  unfolding pooled_start_def by (rule admit_inv) simp_all

lemma inv_settles:
  assumes inv: "pool_inv n p"
  shows "pool_inv n (task_settles p ev)"
proof (cases "fst ev \<in> set (pool_active p)")
  case False
  then show ?thesis using inv by (simp add: task_settles_def)
next
  case True
  let ?p' = "p\<lparr>pool_active := removeAll (fst ev) (pool_active p), pool_settled := pool_settled p @ [ev]\<rparr>"
  from inv have len: "length (pool_active p) \<le> pool_limit p"
    and d: "distinct (pool_queue p @ pool_active p @ map fst (pool_settled p))"
    and s: "set (pool_queue p @ pool_active p @ map fst (pool_settled p)) = {0..<n}"
    unfolding pool_inv_def by blast+
  have r: "length (removeAll (fst ev) (pool_active p)) \<le> length (pool_active p)"
    by (simp add: removeAll_filter_not_eq)
  have l': "length (pool_active ?p') \<le> pool_limit ?p'"
    using order_trans [OF r len] by simp
  have d': "distinct (pool_queue ?p' @ pool_active ?p' @ map fst (pool_settled ?p'))"
    using d True by (auto simp: distinct_removeAll)
  have s': "set (pool_queue ?p' @ pool_active ?p' @ map fst (pool_settled ?p')) = {0..<n}"
    using s True by auto
  show ?thesis
    using admit_inv [OF l' d' s'] True by (simp add: task_settles_def)
qed

lemma inv_foldl: "pool_inv n p \<Longrightarrow> pool_inv n (foldl task_settles p evs)"
  by (induction evs arbitrary: p) (simp_all add: inv_settles)

lemma inv_run: "pool_inv n (pool_run n k evs)"
  unfolding pool_run_def by (rule inv_foldl [OF inv_start])

lemma admit_limit: "pool_limit (admit p) = pool_limit p"
  by (simp add: admit_def Let_def)

lemma settles_limit: "pool_limit (task_settles p ev) = pool_limit p"
  by (simp add: task_settles_def admit_limit)

lemma foldl_limit: "pool_limit (foldl task_settles p evs) = pool_limit p"
  by (induction evs arbitrary: p) (simp_all add: settles_limit)

lemma run_limit: "pool_limit (pool_run n k evs) = k"
  by (simp add: pool_run_def foldl_limit pooled_start_def admit_limit)

lemma inv_count:
  assumes "pool_inv n p"
  shows "length (pool_queue p) + length (pool_active p) + length (pool_settled p) = n"
proof -
  let ?all = "pool_queue p @ pool_active p @ map fst (pool_settled p)"
  from assms have "distinct ?all" "set ?all = {0..<n}" unfolding pool_inv_def by blast+
  then have "length ?all = n" using distinct_card [of ?all] by simp
  then show ?thesis by simp
qed

lemma inv_done_all_settled:
  assumes "pool_inv n p" "pool_done p"
  shows "fst ` set (pool_settled p) = {0..<n}"
  using assms unfolding pool_inv_def pool_done_def by auto

lemma inv_busy:
  assumes inv: "pool_inv n p" and k: "0 < pool_limit p" and nd: "\<not> pool_done p"
  shows "pool_active p \<noteq> []"
proof
  assume e: "pool_active p = []"
  then have "pool_queue p \<noteq> []" using nd by (simp add: pool_done_def)
  then have "length (pool_active p) = pool_limit p" using inv unfolding pool_inv_def by blast
  then show False using e k by simp
qed

lemma settles_active_recorded:
  "fst ev \<in> set (pool_active p) \<Longrightarrow>
   pool_settled (task_settles p ev) = pool_settled p @ [ev]"
  by (simp add: task_settles_def admit_def Let_def)

lemma completions_count:
  "completions_from p evs \<Longrightarrow>
   pool_settled (foldl task_settles p evs) = pool_settled p @ evs"
  by (induction evs arbitrary: p) (simp_all add: settles_active_recorded)

text \<open>
  C9. For a pool of \<open>n\<close> tasks with limit \<open>k \<ge> 1\<close>: never more than \<open>k\<close> tasks are
  active; the pool is done only when every task has settled; while it is not done some
  task is active, and the completion of an active task, with success or failure, is
  recorded; so any schedule of completions of active tasks has at most \<open>n\<close> steps and
  the pool is done exactly when \<open>n\<close> of them have happened.
\<close>

theorem pool_bounded_and_complete:
  assumes k: "0 < k"
  shows "(\<forall>evs. length (pool_active (pool_run n k evs)) \<le> k)
       \<and> (\<forall>evs. pool_done (pool_run n k evs) \<longrightarrow>
              fst ` set (pool_settled (pool_run n k evs)) = {0..<n})
       \<and> (\<forall>evs. \<not> pool_done (pool_run n k evs) \<longrightarrow> pool_active (pool_run n k evs) \<noteq> [])
       \<and> (\<forall>evs ev. fst ev \<in> set (pool_active (pool_run n k evs)) \<longrightarrow>
              pool_settled (pool_run n k (evs @ [ev])) = pool_settled (pool_run n k evs) @ [ev])
       \<and> (\<forall>evs. completions_from (pooled_start n k) evs \<longrightarrow>
              pool_settled (pool_run n k evs) = evs \<and> length evs \<le> n
              \<and> (pool_done (pool_run n k evs) \<longleftrightarrow> length evs = n))"
proof -
  have c1: "\<forall>evs. length (pool_active (pool_run n k evs)) \<le> k"
  proof
    fix evs
    have "length (pool_active (pool_run n k evs)) \<le> pool_limit (pool_run n k evs)"
      using inv_run [of n k evs] unfolding pool_inv_def by blast
    then show "length (pool_active (pool_run n k evs)) \<le> k" by (simp add: run_limit)
  qed
  have c2: "\<forall>evs. pool_done (pool_run n k evs) \<longrightarrow>
              fst ` set (pool_settled (pool_run n k evs)) = {0..<n}"
    using inv_done_all_settled [OF inv_run] by blast
  have c3: "\<forall>evs. \<not> pool_done (pool_run n k evs) \<longrightarrow> pool_active (pool_run n k evs) \<noteq> []"
    using inv_busy [OF inv_run] k by (simp add: run_limit)
  have c4: "\<forall>evs ev. fst ev \<in> set (pool_active (pool_run n k evs)) \<longrightarrow>
              pool_settled (pool_run n k (evs @ [ev])) = pool_settled (pool_run n k evs) @ [ev]"
    by (simp add: pool_run_def settles_active_recorded)
  have c5: "\<forall>evs. completions_from (pooled_start n k) evs \<longrightarrow>
              pool_settled (pool_run n k evs) = evs \<and> length evs \<le> n
              \<and> (pool_done (pool_run n k evs) \<longleftrightarrow> length evs = n)"
  proof (intro allI impI)
    fix evs assume v: "completions_from (pooled_start n k) evs"
    have s: "pool_settled (pool_run n k evs) = evs"
      using completions_count [OF v] by (simp add: pool_run_def pooled_start_def admit_def Let_def)
    have cnt: "length (pool_queue (pool_run n k evs)) + length (pool_active (pool_run n k evs))
                 + length evs = n"
      using inv_count [OF inv_run, of n k evs] s by simp
    then have "length evs \<le> n" by simp
    moreover have "pool_done (pool_run n k evs) \<longleftrightarrow> length evs = n"
      using cnt by (auto simp: pool_done_def)
    ultimately show "pool_settled (pool_run n k evs) = evs \<and> length evs \<le> n
              \<and> (pool_done (pool_run n k evs) \<longleftrightarrow> length evs = n)"
      using s by blast
  qed
  show ?thesis using c1 c2 c3 c4 c5 by blast
qed

lemma sample_pool_start:
  "pooled_start 3 2 = \<lparr>pool_limit = 2, pool_queue = [2], pool_active = [0, 1], pool_settled = []\<rparr>"
  by code_simp

lemma sample_pool_schedule:
  "completions_from (pooled_start 3 2) [(1, False), (0, True), (2, True)]"
  by code_simp

lemma sample_pool_run:
  "pool_run 3 2 [(1, False), (0, True), (2, True)]
     = \<lparr>pool_limit = 2, pool_queue = [], pool_active = [], pool_settled = [(1, False), (0, True), (2, True)]\<rparr>"
  by code_simp

lemma sample_pool_midway:
  "pool_run 3 2 [(1, False)]
     = \<lparr>pool_limit = 2, pool_queue = [], pool_active = [0, 2], pool_settled = [(1, False)]\<rparr>"
  by code_simp

theorem pool_bounded_and_complete_witness:
  "(0::nat) < 2 \<and> (2::nat) < 3
   \<and> completions_from (pooled_start 3 2) [(1, False), (0, True), (2, True)]
   \<and> pool_active (pool_run 3 2 [(1, False)]) = [0, 2]
   \<and> length (pool_active (pool_run 3 2 [(1, False)])) \<le> 2
   \<and> pool_settled (pool_run 3 2 [(1, False), (0, True), (2, True)]) = [(1, False), (0, True), (2, True)]
   \<and> pool_done (pool_run 3 2 [(1, False), (0, True), (2, True)])
   \<and> fst ` set (pool_settled (pool_run 3 2 [(1, False), (0, True), (2, True)])) = {0..<3}"
proof -
  have k: "(0::nat) < 2" by simp
  note T = pool_bounded_and_complete [OF k, of 3]
  from T have c1: "length (pool_active (pool_run 3 2 [(1, False)])) \<le> 2" by blast
  from T sample_pool_schedule
  have c2: "pool_settled (pool_run 3 2 [(1, False), (0, True), (2, True)]) = [(1, False), (0, True), (2, True)]"
    and c3: "pool_done (pool_run 3 2 [(1, False), (0, True), (2, True)])
             \<longleftrightarrow> length [(1::nat, False), (0, True), (2, True)] = 3"
    by blast+
  from c3 have d: "pool_done (pool_run 3 2 [(1, False), (0, True), (2, True)])" by simp
  from T d have c4: "fst ` set (pool_settled (pool_run 3 2 [(1, False), (0, True), (2, True)])) = {0..<3}"
    by blast
  have c0: "pool_active (pool_run 3 2 [(1, False)]) = [0, 2]"
    unfolding sample_pool_midway by simp
  have kn: "(2::nat) < 3" by simp
  show ?thesis
    using k kn sample_pool_schedule c0 c1 c2 d c4 by blast
qed

end
